theory Spec2Isabelle
  imports Complex_Main
begin

section \<open>Ear-clipping triangulation: the program\<close>

text \<open>
  The development follows \<^verbatim>\<open>geom.hpp\<close> and \<^verbatim>\<open>triangulation.cpp\<close>.
  Coordinates are C++ \<^verbatim>\<open>double\<close>s; they are modelled as binary64 values with the
  arithmetic of the source: every subtraction and multiplication rounds its exact result.
  Indices are \<^verbatim>\<open>std::size_t\<close> in the source; here they are naturals: every index
  the program computes is bounded by a vector length, and the subtractions \<^verbatim>\<open>i - 1\<close>
  and \<^verbatim>\<open>v.size() - 1\<close> are evaluated only for \<^verbatim>\<open>i > 0\<close> and behind the range
  check \<^verbatim>\<open>i >= v.size()\<close>, so nothing wraps around.
\<close>

subsection \<open>Binary64 arithmetic\<close>

text \<open>
  A \<^verbatim>\<open>double\<close> is a finite value, an infinity or a NaN. \<open>Finite x\<close> stands for the
  binary64 value \<open>x\<close>; the operations return such values only, and what is proved for
  every \<open>Finite x\<close> holds for the binary64 values among them. The two zeros are one value
  \<open>Finite 0\<close>: subtraction, multiplication and the comparisons \<^verbatim>\<open><\<close> and \<^verbatim>\<open>>\<close>, the only
  operations the source applies, never tell them apart (a zero of either sign times an
  infinity is a NaN, and neither zero is below or above the other).

  \<open>rnd\<close> rounds an exact result to the nearest binary64 value, ties to the even
  significand: 53 significant bits, the least exponent \<open>-1074\<close> of the subnormal range, and
  an infinity when the rounded magnitude reaches \<open>2 ^ 1024\<close>. Each operation rounds once;
  the source's expressions are taken as written, without fused multiply-add and without
  excess precision.
\<close>

datatype double = Finite real | PlusInf | MinusInf | NaN

definition expo :: "real \<Rightarrow> int" where
  "expo x = max (\<lfloor>log 2 \<bar>x\<bar>\<rfloor> - 52) (- 1074)"

definition round_even :: "real \<Rightarrow> int" where
  "round_even r =
     (let f = \<lfloor>r\<rfloor>
      in if r - of_int f < 1 / 2 then f
         else if 1 / 2 < r - of_int f then f + 1
         else if even f then f else f + 1)"

definition rnd :: "real \<Rightarrow> double" where
  "rnd x =
     (if x = 0 then Finite 0
      else let q = 2 powi (expo x);
               y = of_int (round_even (x / q)) * q
           in if 2 ^ 1024 \<le> \<bar>y\<bar> then (if 0 < x then PlusInf else MinusInf)
              else Finite y)"

fun dsub :: "double \<Rightarrow> double \<Rightarrow> double" where
  "dsub NaN b = NaN"
| "dsub a NaN = NaN"
| "dsub (Finite x) (Finite y) = rnd (x - y)"
| "dsub (Finite x) PlusInf = MinusInf"
| "dsub (Finite x) MinusInf = PlusInf"
| "dsub PlusInf PlusInf = NaN"
| "dsub MinusInf MinusInf = NaN"
| "dsub PlusInf b = PlusInf"
| "dsub MinusInf b = MinusInf"

definition dsgn :: "double \<Rightarrow> int" where
  "dsgn a =
     (case a of
        Finite x \<Rightarrow> (if x < 0 then - 1 else if 0 < x then 1 else 0)
      | PlusInf \<Rightarrow> 1
      | MinusInf \<Rightarrow> - 1
      | NaN \<Rightarrow> 0)"

fun dmul :: "double \<Rightarrow> double \<Rightarrow> double" where
  "dmul NaN b = NaN"
| "dmul a NaN = NaN"
| "dmul (Finite x) (Finite y) = rnd (x * y)"
| "dmul a b =
     (if dsgn a * dsgn b = 0 then NaN
      else if 0 < dsgn a * dsgn b then PlusInf else MinusInf)"

fun dless :: "double \<Rightarrow> double \<Rightarrow> bool" where
  "dless NaN b = False"
| "dless a NaN = False"
| "dless (Finite x) (Finite y) = (x < y)"
| "dless MinusInf MinusInf = False"
| "dless MinusInf b = True"
| "dless a MinusInf = False"
| "dless PlusInf b = False"
| "dless a PlusInf = True"

text \<open>
  A value that is zero or NaN is neither below nor above zero; differences and products of
  such values are of the same kind (lemmas \<open>zero_or_nan_dsub\<close>, \<open>zero_or_nan_dmul_left\<close>).
\<close>

definition zero_or_nan :: "double \<Rightarrow> bool" where
  "zero_or_nan a = (a = Finite 0 \<or> a = NaN)"

subsection \<open>geom.hpp\<close>

record 'a triangle =
  triA :: 'a
  triB :: 'a
  triC :: 'a

record vec2 =
  vx :: double
  vy :: double

definition sign :: "vec2 \<Rightarrow> vec2 \<Rightarrow> vec2 \<Rightarrow> double" where
  "sign p1 p2 p3 =
     dsub (dmul (dsub (vx p1) (vx p3)) (dsub (vy p2) (vy p3)))
          (dmul (dsub (vx p2) (vx p3)) (dsub (vy p1) (vy p3)))"

definition point_in_triangle :: "vec2 triangle \<Rightarrow> vec2 \<Rightarrow> bool" where
  "point_in_triangle tri pt =
     (let d1 = sign pt (triA tri) (triB tri);
          d2 = sign pt (triB tri) (triC tri);
          d3 = sign pt (triC tri) (triA tri);
          has_neg = (dless d1 (Finite 0) \<or> dless d2 (Finite 0) \<or> dless d3 (Finite 0));
          has_pos = (dless (Finite 0) d1 \<or> dless (Finite 0) d2 \<or> dless (Finite 0) d3)
      in \<not> (has_neg \<and> has_pos))"

definition det3 :: "vec2 \<Rightarrow> vec2 \<Rightarrow> vec2 \<Rightarrow> double" where
  "det3 a b c =
     (let ab = \<lparr>vx = dsub (vx b) (vx a), vy = dsub (vy b) (vy a)\<rparr>;
          bc = \<lparr>vx = dsub (vx c) (vx b), vy = dsub (vy c) (vy b)\<rparr>
      in dsub (dmul (vx ab) (vy bc)) (dmul (vx bc) (vy ab)))"

definition det :: "vec2 triangle \<Rightarrow> double" where
  "det tri = det3 (triA tri) (triB tri) (triC tri)"

definition geom_is_convex :: "vec2 triangle \<Rightarrow> bool" where
  "geom_is_convex tri = dless (Finite 0) (det tri)"

definition geom_is_reflex :: "vec2 triangle \<Rightarrow> bool" where
  "geom_is_reflex tri = dless (det tri) (Finite 0)"

subsection \<open>triangulation.cpp: the free functions\<close>

text \<open>
  The source throws \<^verbatim>\<open>std::out_of_range\<close> from the index lookup and from
  \<^verbatim>\<open>vector::at\<close>, and \<^verbatim>\<open>std::logic_error\<close> with three different messages:
  element not found, ear list empty, polygon non-simple. Each is one error value.
\<close>

datatype error = OutOfRange | NotFound | EmptyEarList | NonSimplePolygon

definition build_triangle_at_index :: "'a list \<Rightarrow> nat \<Rightarrow> error + 'a triangle" where
  "build_triangle_at_index v i =
     (if i \<ge> length v then Inl OutOfRange
      else Inr \<lparr>triA = v ! (if i > 0 then i - 1 else length v - 1),
                triB = v ! i,
                triC = v ! (if i < length v - 1 then i + 1 else length v - 1)\<rparr>)"

text \<open>\<^verbatim>\<open>std::find\<close> followed by \<^verbatim>\<open>std::distance\<close>: the position of the first occurrence.\<close>

fun find_pos :: "'a list \<Rightarrow> 'a \<Rightarrow> nat option" where
  "find_pos [] e = None"
| "find_pos (x # xs) e = (if x = e then Some 0 else map_option Suc (find_pos xs e))"

definition build_triangle_at_element :: "'a list \<Rightarrow> 'a \<Rightarrow> error + 'a triangle" where
  "build_triangle_at_element v e =
     (case find_pos v e of
        None \<Rightarrow> Inl NotFound
      | Some i \<Rightarrow> build_triangle_at_index v i)"

definition vec_at :: "'a list \<Rightarrow> nat \<Rightarrow> error + 'a" where
  "vec_at v i = (if i < length v then Inr (v ! i) else Inl OutOfRange)"

definition make_triangle_real :: "'a list \<Rightarrow> nat triangle \<Rightarrow> error + 'a triangle" where
  "make_triangle_real v tri =
     (case vec_at v (triA tri) of
        Inl e \<Rightarrow> Inl e
      | Inr a \<Rightarrow>
          (case vec_at v (triB tri) of
             Inl e \<Rightarrow> Inl e
           | Inr b \<Rightarrow>
               (case vec_at v (triC tri) of
                  Inl e \<Rightarrow> Inl e
                | Inr c \<Rightarrow> Inr \<lparr>triA = a, triB = b, triC = c\<rparr>)))"

type_synonym fake_triangle = "nat triangle"
type_synonym real_triangle = "vec2 triangle"

subsection \<open>std::set of indices\<close>

text \<open>
  A \<^verbatim>\<open>std::set<std::size_t>\<close> is kept as the list of its elements in iteration
  order, that is strictly increasing. \<open>set_insert\<close> and \<open>set_erase\<close> keep that shape
  (lemmas \<open>oset_insert\<close>, \<open>oset_erase\<close>).
\<close>

definition oset :: "nat list \<Rightarrow> bool" where
  "oset xs = (sorted xs \<and> distinct xs)"

definition set_insert :: "nat \<Rightarrow> nat list \<Rightarrow> nat list" where
  "set_insert k xs = (if k \<in> set xs then xs else insort k xs)"

definition set_erase :: "nat \<Rightarrow> nat list \<Rightarrow> nat list" where
  "set_erase k xs = removeAll k xs"

subsection \<open>class polygon\<close>

record polygon =
  vertices :: "vec2 list"
  vertex_list :: "nat list"
  convex_list :: "nat list"
  reflex_list :: "nat list"
  ear_list :: "nat list"

definition build_fake_triangle_at :: "polygon \<Rightarrow> nat \<Rightarrow> error + fake_triangle" where
  "build_fake_triangle_at p vertex = build_triangle_at_element (vertex_list p) vertex"

definition build_real_triangle_at :: "polygon \<Rightarrow> nat \<Rightarrow> error + real_triangle" where
  "build_real_triangle_at p vertex =
     (case build_fake_triangle_at p vertex of
        Inl e \<Rightarrow> Inl e
      | Inr fake \<Rightarrow> make_triangle_real (vertices p) fake)"

definition is_convex :: "polygon \<Rightarrow> nat \<Rightarrow> error + bool" where
  "is_convex p vertex =
     (if vertex \<in> set (convex_list p) then Inr True
      else case build_real_triangle_at p vertex of
             Inl e \<Rightarrow> Inl e
           | Inr abc \<Rightarrow> Inr (geom_is_convex abc))"

definition is_reflex :: "polygon \<Rightarrow> nat \<Rightarrow> error + bool" where
  "is_reflex p vertex =
     (if vertex \<in> set (reflex_list p) then Inr True
      else case build_real_triangle_at p vertex of
             Inl e \<Rightarrow> Inl e
           | Inr abc \<Rightarrow> Inr (geom_is_reflex abc))"

text \<open>
  The scan of \<^verbatim>\<open>is_ear\<close> over the reflex set, in iteration order. The source reads
  \<^verbatim>\<open>vertices[reflex_vertex]\<close> unchecked; every member of the reflex set is an index
  of the point array in every state of the driver (lemma \<open>poly_inv_reflex_bound\<close>).
\<close>

fun no_reflex_inside :: "vec2 list \<Rightarrow> real_triangle \<Rightarrow> nat list \<Rightarrow> bool" where
  "no_reflex_inside vs abc [] = True"
| "no_reflex_inside vs abc (reflex_vertex # rest) =
     (if point_in_triangle abc (vs ! reflex_vertex) then False
      else no_reflex_inside vs abc rest)"

definition is_ear :: "polygon \<Rightarrow> nat \<Rightarrow> bool \<Rightarrow> error + bool" where
  "is_ear p vertex pre_test =
     (if pre_test \<and> vertex \<in> set (ear_list p) then Inr True
      else case build_real_triangle_at p vertex of
             Inl e \<Rightarrow> Inl e
           | Inr abc \<Rightarrow> Inr (no_reflex_inside (vertices p) abc (reflex_list p)))"

definition update_vertex_convexity :: "polygon \<Rightarrow> nat \<Rightarrow> error + (bool \<times> polygon)" where
  "update_vertex_convexity p vertex =
     (case is_convex p vertex of
        Inl e \<Rightarrow> Inl e
      | Inr c \<Rightarrow>
          if c then Inr (True, p\<lparr>convex_list := set_insert vertex (convex_list p),
                                  reflex_list := set_erase vertex (reflex_list p)\<rparr>)
          else Inr (False, p))"

definition update_vertex_earness :: "polygon \<Rightarrow> nat \<Rightarrow> error + (bool \<times> polygon)" where
  "update_vertex_earness p vertex =
     (case is_ear p vertex False of
        Inl e \<Rightarrow> Inl e
      | Inr b \<Rightarrow>
          if b then Inr (True, p\<lparr>ear_list := set_insert vertex (ear_list p)\<rparr>)
          else Inr (False, p\<lparr>ear_list := set_erase vertex (ear_list p)\<rparr>))"

definition update_vertex :: "polygon \<Rightarrow> nat \<Rightarrow> error + polygon" where
  "update_vertex p vertex =
     (case update_vertex_convexity p vertex of
        Inl e \<Rightarrow> Inl e
      | Inr (c, p1) \<Rightarrow>
          if c then (case update_vertex_earness p1 vertex of
                       Inl e \<Rightarrow> Inl e
                     | Inr (b, p2) \<Rightarrow> Inr p2)
          else Inr p1)"

text \<open>
  \<^verbatim>\<open>remove_vertex\<close>: the triangle is built first, the vertex is erased from the ring
  (first occurrence) and from the three sets, then both corners \<open>A\<close> and \<open>C\<close> of the
  triangle are updated. The \<^verbatim>\<open>printf\<close> lines have no effect on the state.
\<close>

definition erase_vertex :: "polygon \<Rightarrow> nat \<Rightarrow> polygon" where
  "erase_vertex p vertex =
     p\<lparr>vertex_list := remove1 vertex (vertex_list p),
       convex_list := set_erase vertex (convex_list p),
       reflex_list := set_erase vertex (reflex_list p),
       ear_list := set_erase vertex (ear_list p)\<rparr>"

definition remove_vertex :: "polygon \<Rightarrow> nat \<Rightarrow> error + (fake_triangle \<times> polygon)" where
  "remove_vertex p vertex =
     (case build_fake_triangle_at p vertex of
        Inl e \<Rightarrow> Inl e
      | Inr abc \<Rightarrow>
          (case update_vertex (erase_vertex p vertex) (triA abc) of
             Inl e \<Rightarrow> Inl e
           | Inr p1 \<Rightarrow>
               (case update_vertex p1 (triC abc) of
                  Inl e \<Rightarrow> Inl e
                | Inr p2 \<Rightarrow> Inr (abc, p2))))"

definition has_ear :: "polygon \<Rightarrow> bool" where
  "has_ear p = (ear_list p \<noteq> [])"

definition get_next_ear :: "polygon \<Rightarrow> error + nat" where
  "get_next_ear p = (if ear_list p = [] then Inl EmptyEarList else Inr (hd (ear_list p)))"

definition poly_size :: "polygon \<Rightarrow> nat" where
  "poly_size p = length (vertex_list p)"

text \<open>The constructor: the two classification loops, then the ear loop over the convex set.\<close>

fun classify_loop :: "polygon \<Rightarrow> nat list \<Rightarrow> error + polygon" where
  "classify_loop p [] = Inr p"
| "classify_loop p (vertex # rest) =
     (case build_real_triangle_at p vertex of
        Inl e \<Rightarrow> Inl e
      | Inr abc \<Rightarrow>
          (let p1 = (if geom_is_convex abc
                     then p\<lparr>convex_list := set_insert vertex (convex_list p)\<rparr> else p);
               p2 = (if geom_is_reflex abc
                     then p1\<lparr>reflex_list := set_insert vertex (reflex_list p1)\<rparr> else p1)
           in classify_loop p2 rest))"

fun ear_loop :: "polygon \<Rightarrow> nat list \<Rightarrow> error + polygon" where
  "ear_loop p [] = Inr p"
| "ear_loop p (vertex # rest) =
     (case is_ear p vertex False of
        Inl e \<Rightarrow> Inl e
      | Inr b \<Rightarrow>
          ear_loop (if b then p\<lparr>ear_list := set_insert vertex (ear_list p)\<rparr> else p) rest)"

definition polygon_init :: "vec2 list \<Rightarrow> error + polygon" where
  "polygon_init vs =
     (let p0 = \<lparr>vertices = vs, vertex_list = [0..<length vs],
                convex_list = [], reflex_list = [], ear_list = []\<rparr>
      in case classify_loop p0 (vertex_list p0) of
           Inl e \<Rightarrow> Inl e
         | Inr p1 \<Rightarrow> ear_loop p1 (convex_list p1))"

subsection \<open>Basic facts about the arithmetic\<close>

lemma rnd_zero: "rnd 0 = Finite 0" by (simp add: rnd_def)

lemma round_even_of_int: "round_even (of_int n) = n"
  by (simp add: round_even_def)

lemma expo_eq:
  assumes "2 ^ k \<le> \<bar>x\<bar>" "\<bar>x\<bar> < 2 ^ Suc k"
  shows "expo x = max (int k - 52) (- 1074)"
proof -
  have "(0::real) < 2 ^ k" by simp
  with assms(1) have pos: "0 < \<bar>x\<bar>" by linarith
  have "\<lfloor>log 2 \<bar>x\<bar>\<rfloor> = int k"
    using assms pos by (subst floor_log_eq_powr_iff) (auto simp: powr_realpow powr_add)
  then show ?thesis by (simp add: expo_def)
qed

lemma rnd_scaled:
  assumes "x \<noteq> 0" "expo x = e" "x = of_int m * 2 powi e" "\<bar>x\<bar> < 2 ^ 1024"
  shows "rnd x = Finite x"
proof -
  have q: "(2::real) powi e \<noteq> 0" by simp
  have "x / 2 powi e = of_int m" using assms(3) q by simp
  then have "of_int (round_even (x / 2 powi e)) * 2 powi e = x"
    using assms(3) by (simp add: round_even_of_int)
  then show ?thesis using assms(1,2,4) by (simp add: rnd_def Let_def)
qed

lemma rnd_exact_int:
  assumes "x \<in> \<int>" "\<bar>x\<bar> \<le> 2 ^ 53"
  shows "rnd x = Finite x"
proof (cases "x = 0")
  case True
  then show ?thesis by (simp add: rnd_zero)
next
  case False
  from assms(1) obtain n where n: "x = of_int n" by (auto elim: Ints_cases)
  with False have "n \<noteq> 0" by auto
  then have "1 \<le> \<bar>n\<bar>" by simp
  then have one: "1 \<le> \<bar>x\<bar>" unfolding n by (metis of_int_abs of_int_le_iff of_int_1)
  define L where "L = \<lfloor>log 2 \<bar>x\<bar>\<rfloor>"
  have l0: "0 \<le> log 2 \<bar>x\<bar>" using one by simp
  have "log 2 \<bar>x\<bar> \<le> log 2 (2 ^ 53)" using one assms(2) by (subst log_le_cancel_iff) auto
  then have l53: "log 2 \<bar>x\<bar> \<le> 53" using log_pow_cancel[of "2::real" 53] by simp
  have L: "0 \<le> L" "L \<le> 53" using l0 l53 by (auto simp: L_def le_floor_iff floor_le_iff)
  then have e: "expo x = L - 52" by (simp add: expo_def L_def)
  have "(2::real) ^ 53 < 2 ^ 1024" by (rule power_strict_increasing) simp_all
  with assms(2) have big: "\<bar>x\<bar> < 2 ^ 1024" by linarith
  show ?thesis
  proof (cases "L = 53")
    case True
    then have "53 \<le> log 2 \<bar>x\<bar>" unfolding L_def by linarith
    then have "2 powr 53 \<le> \<bar>x\<bar>" using one by (subst (asm) le_log_iff) auto
    then have "2 ^ 53 \<le> \<bar>x\<bar>" using powr_realpow[of "2::real" 53] by simp
    with assms(2) have ax: "\<bar>x\<bar> = 2 ^ 53" by simp
    have "x = of_int (if 0 < x then 2 ^ 52 else - (2 ^ 52)) * 2 powi 1"
      using ax by (auto simp: abs_if split: if_splits)
    with rnd_scaled[OF False _ this big] e True show ?thesis by simp
  next
    case ne: False
    with L have le: "L \<le> 52" by simp
    define m where "m = nat (52 - L)"
    have "(2::real) powi (L - 52) = 1 / 2 ^ m"
      using le by (simp add: m_def power_int_def field_simps)
    then have "x = of_int (n * 2 ^ m) * 2 powi (L - 52)" by (simp add: n)
    from rnd_scaled[OF False e this big] show ?thesis .
  qed
qed

lemma rnd_eval:
  assumes "2 ^ k \<le> \<bar>x\<bar>" "\<bar>x\<bar> < 2 ^ Suc k" "52 \<le> k"
  shows "rnd x =
     (let q = 2 ^ (k - 52); y = of_int (round_even (x / q)) * q
      in if 2 ^ 1024 \<le> \<bar>y\<bar> then (if 0 < x then PlusInf else MinusInf) else Finite y)"
proof -
  have "(0::real) < 2 ^ k" by simp
  with assms(1) have "0 < \<bar>x\<bar>" by linarith
  then have "x \<noteq> 0" by simp
  moreover have "expo x = int (k - 52)" using expo_eq[OF assms(1,2)] assms(3) by simp
  ultimately show ?thesis by (simp add: rnd_def Let_def)
qed

lemma dsub_self: "dsub a a = Finite 0 \<or> dsub a a = NaN"
  by (cases a) (simp_all add: rnd_zero)

lemma dmul_zero_left: "dmul (Finite 0) b = Finite 0 \<or> dmul (Finite 0) b = NaN"
  by (cases b) (simp_all add: rnd_zero dsgn_def)

lemma dmul_zero_right: "dmul a (Finite 0) = Finite 0 \<or> dmul a (Finite 0) = NaN"
  by (cases a) (simp_all add: rnd_zero dsgn_def)

lemma dless_NaN: "\<not> dless NaN b" "\<not> dless a NaN"
  by (cases a; simp)+

lemma dless_asym: "dless a b \<Longrightarrow> \<not> dless b a"
  by (cases a; cases b) simp_all

lemma zero_or_nan_dless: "zero_or_nan a \<Longrightarrow> \<not> dless a (Finite 0) \<and> \<not> dless (Finite 0) a"
  by (auto simp: zero_or_nan_def)

lemma zero_or_nan_dsub_self: "zero_or_nan (dsub a a)"
  using dsub_self[of a] by (simp add: zero_or_nan_def)

lemma zero_or_nan_dmul_left: "zero_or_nan a \<Longrightarrow> zero_or_nan (dmul a b)"
  using dmul_zero_left[of b] by (auto simp: zero_or_nan_def)

lemma zero_or_nan_dmul_right: "zero_or_nan b \<Longrightarrow> zero_or_nan (dmul a b)"
  using dmul_zero_right[of a] by (cases a) (auto simp: zero_or_nan_def)

lemma zero_or_nan_dsub: "zero_or_nan a \<Longrightarrow> zero_or_nan b \<Longrightarrow> zero_or_nan (dsub a b)"
  by (auto simp: zero_or_nan_def rnd_zero)

subsection \<open>Basic facts about the lookups and the sets\<close>

lemma find_pos_None: "find_pos xs e = None \<longleftrightarrow> e \<notin> set xs"
  by (induction xs) auto

lemma find_pos_Some: "find_pos xs e = Some i \<Longrightarrow> i < length xs \<and> xs ! i = e"
  by (induction xs arbitrary: i) (auto split: if_splits)

lemma find_pos_distinct: "distinct xs \<Longrightarrow> i < length xs \<Longrightarrow> find_pos xs (xs ! i) = Some i"
proof (induction xs arbitrary: i)
  case Nil
  then show ?case by simp
next
  case (Cons a xs)
  then show ?case by (cases i) auto
qed

lemma set_set_insert: "set (set_insert k xs) = insert k (set xs)"
  by (auto simp: set_insert_def set_insort_key)

lemma set_set_erase: "set (set_erase k xs) = set xs - {k}"
  by (auto simp: set_erase_def)

lemma oset_insert: "oset xs \<Longrightarrow> oset (set_insert k xs)"
  by (auto simp: oset_def set_insert_def sorted_insort distinct_insort)

lemma oset_erase: "oset xs \<Longrightarrow> oset (set_erase k xs)"
  by (auto simp: oset_def set_erase_def removeAll_filter_not_eq intro: sorted_wrt_filter)

lemma update_vertex_convexity_frame:
  "update_vertex_convexity p v = Inr (c, p') \<Longrightarrow>
     vertices p' = vertices p \<and> vertex_list p' = vertex_list p \<and> ear_list p' = ear_list p"
  by (auto simp: update_vertex_convexity_def split: sum.splits if_splits)

lemma update_vertex_earness_frame:
  "update_vertex_earness p v = Inr (b, p') \<Longrightarrow>
     vertices p' = vertices p \<and> vertex_list p' = vertex_list p \<and>
     convex_list p' = convex_list p \<and> reflex_list p' = reflex_list p"
  by (auto simp: update_vertex_earness_def split: sum.splits if_splits)

lemma update_vertex_frame:
  "update_vertex p v = Inr p' \<Longrightarrow> vertices p' = vertices p \<and> vertex_list p' = vertex_list p"
  by (auto simp: update_vertex_def split: sum.splits if_splits prod.splits
      dest!: update_vertex_convexity_frame update_vertex_earness_frame)

lemma remove_vertex_ring:
  assumes "remove_vertex p v = Inr (abc, p')"
  shows "vertex_list p' = remove1 v (vertex_list p)" and "vertices p' = vertices p"
    and "v \<in> set (vertex_list p)"
proof -
  from assms obtain p1 where
    t: "build_fake_triangle_at p v = Inr abc" and
    u1: "update_vertex (erase_vertex p v) (triA abc) = Inr p1" and
    u2: "update_vertex p1 (triC abc) = Inr p'"
    by (auto simp: remove_vertex_def split: sum.splits)
  from u1 u2 show "vertex_list p' = remove1 v (vertex_list p)" "vertices p' = vertices p"
    by (auto dest!: update_vertex_frame simp: erase_vertex_def)
  from t have "find_pos (vertex_list p) v \<noteq> None"
    by (auto simp: build_fake_triangle_at_def build_triangle_at_element_def split: option.splits)
  then show "v \<in> set (vertex_list p)"
    by (simp add: find_pos_None)
qed

lemma remove_vertex_size:
  "remove_vertex p v = Inr (abc, p') \<Longrightarrow> Suc (poly_size p') = poly_size p"
proof -
  assume r: "remove_vertex p v = Inr (abc, p')"
  have "v \<in> set (vertex_list p)" by (rule remove_vertex_ring(3)[OF r])
  then have "length (vertex_list p) > 0" by (rule length_pos_if_in_set)
  moreover have "length (vertex_list p') = length (vertex_list p) - 1"
    using remove_vertex_ring(1)[OF r] \<open>v \<in> set (vertex_list p)\<close> by (simp add: length_remove1)
  ultimately show ?thesis by (simp add: poly_size_def)
qed

subsection \<open>The driver\<close>

text \<open>
  The \<^verbatim>\<open>while\<close> loop of \<^verbatim>\<open>triangulate\<close>. Every iteration that does not throw
  shortens the ring by one (lemma \<open>remove_vertex_size\<close>), so the loop terminates.
\<close>

function triangulate_loop :: "polygon \<Rightarrow> fake_triangle list \<Rightarrow> error + fake_triangle list" where
  "triangulate_loop p triangles =
     (if poly_size p > 2 then
        (if \<not> has_ear p then Inl NonSimplePolygon
         else case get_next_ear p of
                Inl e \<Rightarrow> Inl e
              | Inr ear_vertex \<Rightarrow>
                  (case remove_vertex p ear_vertex of
                     Inl e \<Rightarrow> Inl e
                   | Inr (ear, p') \<Rightarrow> triangulate_loop p' (triangles @ [ear])))
      else Inr triangles)"
  by pat_completeness auto
termination
  by (relation "measure (\<lambda>(p, triangles). poly_size p)") (auto dest: remove_vertex_size)

declare triangulate_loop.simps [simp del]

definition triangulate :: "vec2 list \<Rightarrow> error + fake_triangle list" where
  "triangulate vs =
     (case polygon_init vs of
        Inl e \<Rightarrow> Inl e
      | Inr p \<Rightarrow> triangulate_loop p [])"

section \<open>Notions of the specification\<close>

text \<open>
  The triple the specification describes for a ring position: predecessor, self, successor,
  the ring read cyclically. It is written from the specification's words, to be compared with
  \<open>build_triangle_at_index\<close>.
\<close>

definition ring_triangle :: "'a list \<Rightarrow> nat \<Rightarrow> 'a triangle" where
  "ring_triangle v i =
     \<lparr>triA = v ! ((i + length v - 1) mod length v),
      triB = v ! i,
      triC = v ! ((i + 1) mod length v)\<rparr>"

text \<open>
  The point of the plane a \<open>vec2\<close> with finite coordinates stands for: \<open>rx\<close> and \<open>ry\<close> are
  its real coordinates (\<open>val\<close> is only meant for finite values). \<open>pnt\<close> writes the \<open>vec2\<close>
  with two given finite coordinates.
\<close>

fun val :: "double \<Rightarrow> real" where
  "val (Finite x) = x"
| "val PlusInf = 0"
| "val MinusInf = 0"
| "val NaN = 0"

definition rx :: "vec2 \<Rightarrow> real" where
  "rx p = val (vx p)"

definition ry :: "vec2 \<Rightarrow> real" where
  "ry p = val (vy p)"

definition pnt :: "real \<Rightarrow> real \<Rightarrow> vec2" where
  "pnt a b = \<lparr>vx = Finite a, vy = Finite b\<rparr>"

text \<open>
  \<open>in_closed_triangle\<close> is the closed triangle as a set of points of the plane: the convex
  combinations of the three corners. \<open>sign_exact\<close> and \<open>det3_exact\<close> are the expressions of
  \<open>sign\<close> and \<open>det3\<close> in exact arithmetic. A coordinate is small when it is an integer of
  magnitude at most \<open>2 ^ 25\<close>: on small coordinates no operation of \<open>sign\<close> or \<open>det3\<close>
  rounds.
\<close>

definition in_closed_triangle :: "vec2 triangle \<Rightarrow> vec2 \<Rightarrow> bool" where
  "in_closed_triangle tri pt =
     (\<exists>a b c. 0 \<le> a \<and> 0 \<le> b \<and> 0 \<le> c \<and> a + b + c = 1 \<and>
        rx pt = a * rx (triA tri) + b * rx (triB tri) + c * rx (triC tri) \<and>
        ry pt = a * ry (triA tri) + b * ry (triB tri) + c * ry (triC tri))"

definition sign_exact :: "vec2 \<Rightarrow> vec2 \<Rightarrow> vec2 \<Rightarrow> real" where
  "sign_exact p1 p2 p3 =
     (rx p1 - rx p3) * (ry p2 - ry p3) - (rx p2 - rx p3) * (ry p1 - ry p3)"

definition det3_exact :: "vec2 \<Rightarrow> vec2 \<Rightarrow> vec2 \<Rightarrow> real" where
  "det3_exact a b c = (rx b - rx a) * (ry c - ry b) - (rx c - rx b) * (ry b - ry a)"

definition point_in_triangle_exact :: "vec2 triangle \<Rightarrow> vec2 \<Rightarrow> bool" where
  "point_in_triangle_exact tri pt =
     (\<not> ((sign_exact pt (triA tri) (triB tri) < 0 \<or> sign_exact pt (triB tri) (triC tri) < 0 \<or>
          sign_exact pt (triC tri) (triA tri) < 0) \<and>
         (sign_exact pt (triA tri) (triB tri) > 0 \<or> sign_exact pt (triB tri) (triC tri) > 0 \<or>
          sign_exact pt (triC tri) (triA tri) > 0)))"

definition small_coord :: "double \<Rightarrow> bool" where
  "small_coord d = (case d of Finite x \<Rightarrow> x \<in> \<int> \<and> \<bar>x\<bar> \<le> 2 ^ 25 | _ \<Rightarrow> False)"

definition small_point :: "vec2 \<Rightarrow> bool" where
  "small_point p = (small_coord (vx p) \<and> small_coord (vy p))"

text \<open>
  The classification of a vertex recomputed from its current local triangle, as opposed to
  its membership in the cached sets.
\<close>

definition fresh_convex :: "polygon \<Rightarrow> nat \<Rightarrow> bool" where
  "fresh_convex p v =
     (case build_real_triangle_at p v of Inl e \<Rightarrow> False | Inr abc \<Rightarrow> geom_is_convex abc)"

definition fresh_reflex :: "polygon \<Rightarrow> nat \<Rightarrow> bool" where
  "fresh_reflex p v =
     (case build_real_triangle_at p v of Inl e \<Rightarrow> False | Inr abc \<Rightarrow> geom_is_reflex abc)"

definition fresh_ear :: "polygon \<Rightarrow> nat \<Rightarrow> bool" where
  "fresh_ear p v = (is_ear p v False = Inr True)"

text \<open>
  The invariant of the polygon states: the ring has no repetition and holds indices of the
  point array; the three sets are strictly increasing lists; convex and reflex members are
  ring vertices, ears are convex, no vertex is both convex and reflex; and the last ring
  element is not in the convex set (the lookup gives it the successor itself, so its triangle
  has determinant zero).
\<close>

definition poly_inv :: "polygon \<Rightarrow> bool" where
  "poly_inv p =
     (distinct (vertex_list p) \<and>
      (\<forall>v \<in> set (vertex_list p). v < length (vertices p)) \<and>
      oset (convex_list p) \<and> oset (reflex_list p) \<and> oset (ear_list p) \<and>
      set (convex_list p) \<subseteq> set (vertex_list p) \<and>
      set (reflex_list p) \<subseteq> set (vertex_list p) \<and>
      set (ear_list p) \<subseteq> set (convex_list p) \<and>
      set (convex_list p) \<inter> set (reflex_list p) = {} \<and>
      (vertex_list p \<noteq> [] \<longrightarrow> last (vertex_list p) \<notin> set (convex_list p)))"

text \<open>
  The states the driver loop passes through on an input, with the triangles collected so
  far: the constructed polygon, and from a state with more than two ring vertices and an
  ear, the state after removing the next ear.
\<close>

inductive driver_reach :: "vec2 list \<Rightarrow> polygon \<Rightarrow> fake_triangle list \<Rightarrow> bool"
  for vs :: "vec2 list" where
  reach_init: "polygon_init vs = Inr p \<Longrightarrow> driver_reach vs p []"
| reach_step: "driver_reach vs p triangles \<Longrightarrow> 2 < poly_size p \<Longrightarrow> has_ear p \<Longrightarrow>
     get_next_ear p = Inr ear_vertex \<Longrightarrow> remove_vertex p ear_vertex = Inr (ear, p') \<Longrightarrow>
     driver_reach vs p' (triangles @ [ear])"

code_pred driver_reach .

definition valid_triangle :: "nat \<Rightarrow> fake_triangle \<Rightarrow> bool" where
  "valid_triangle n t =
     (triA t \<noteq> triB t \<and> triB t \<noteq> triC t \<and> triA t \<noteq> triC t \<and>
      triA t < n \<and> triB t < n \<and> triC t < n)"


definition square :: "vec2 list" where
  "square = [pnt 0 0, pnt 1 0, pnt 1 1, pnt 0 1]"

definition dart :: "vec2 list" where
  "dart = [pnt 0 0, pnt 4 0, pnt 1 1, pnt 0 4]"

definition dented :: "vec2 list" where
  "dented = [pnt 2 (- 2), pnt 4 0, pnt 3 2, pnt 4 4, pnt 0 4]"

text \<open>
  Modelled from the spec: a simple polygon, which the source has no predicate for. The
  glossary calls a polygon simple when its boundary does not self-intersect. Here: at least
  three pairwise different points, two edges that are not neighbours share no point, and two
  neighbouring edges are not collinear. \<open>segments_meet\<close> is the usual orientation test for
  two closed segments. \<open>area2\<close> is twice the signed area; it is positive for a
  counter-clockwise boundary, the winding for which \<open>geom_is_convex\<close> means convex.
\<close>

definition cross :: "vec2 \<Rightarrow> vec2 \<Rightarrow> vec2 \<Rightarrow> real" where
  "cross p q r = (rx q - rx p) * (ry r - ry p) - (ry q - ry p) * (rx r - rx p)"

definition on_segment :: "vec2 \<Rightarrow> vec2 \<Rightarrow> vec2 \<Rightarrow> bool" where
  "on_segment p q r =
     (cross p q r = 0 \<and> min (rx p) (rx q) \<le> rx r \<and> rx r \<le> max (rx p) (rx q) \<and>
      min (ry p) (ry q) \<le> ry r \<and> ry r \<le> max (ry p) (ry q))"

definition segments_meet :: "vec2 \<Rightarrow> vec2 \<Rightarrow> vec2 \<Rightarrow> vec2 \<Rightarrow> bool" where
  "segments_meet p1 q1 p2 q2 =
     (let d1 = cross p1 q1 p2; d2 = cross p1 q1 q2; d3 = cross p2 q2 p1; d4 = cross p2 q2 q1
      in ((d1 < 0 \<and> 0 < d2 \<or> 0 < d1 \<and> d2 < 0) \<and> (d3 < 0 \<and> 0 < d4 \<or> 0 < d3 \<and> d4 < 0)) \<or>
         on_segment p1 q1 p2 \<or> on_segment p1 q1 q2 \<or>
         on_segment p2 q2 p1 \<or> on_segment p2 q2 q1)"

definition next_point :: "vec2 list \<Rightarrow> nat \<Rightarrow> vec2" where
  "next_point vs i = vs ! ((i + 1) mod length vs)"

definition edges_ok :: "vec2 list \<Rightarrow> nat \<Rightarrow> nat \<Rightarrow> bool" where
  "edges_ok vs i j =
     (if j = i + 1 then cross (vs ! i) (vs ! j) (next_point vs j) \<noteq> 0
      else if i = 0 \<and> j = length vs - 1 then cross (vs ! j) (vs ! i) (next_point vs i) \<noteq> 0
      else \<not> segments_meet (vs ! i) (next_point vs i) (vs ! j) (next_point vs j))"

definition simple_polygon :: "vec2 list \<Rightarrow> bool" where
  "simple_polygon vs =
     (3 \<le> length vs \<and> distinct vs \<and>
      list_all (\<lambda>i. list_all (\<lambda>j. edges_ok vs i j) [i + 1..<length vs]) [0..<length vs])"

definition area2 :: "vec2 list \<Rightarrow> real" where
  "area2 vs = (\<Sum>i \<leftarrow> [0..<length vs]. rx (vs ! i) * ry (next_point vs i) - rx (next_point vs i) * ry (vs ! i))"

text \<open>
  Exactness of the cached sets in a state: the ear set holds exactly the ring vertices that
  are in the convex set and pass a fresh ear test, and every member of the reflex set tests
  reflex on its current triangle.
\<close>

definition ears_exact :: "polygon \<Rightarrow> bool" where
  "ears_exact p =
     (\<forall>v \<in> set (vertex_list p).
        (v \<in> set (ear_list p)) = (v \<in> set (convex_list p) \<and> fresh_ear p v))"

definition reflex_exact :: "polygon \<Rightarrow> bool" where
  "reflex_exact p = (\<forall>r \<in> set (reflex_list p). fresh_reflex p r)"

section \<open>Geometry predicates\<close>

subsection \<open>The half-plane test in exact arithmetic\<close>

lemma sign_exact_sum: "sign_exact p a b + sign_exact p b c + sign_exact p c a = det3_exact a b c"
  by (simp add: sign_exact_def det3_exact_def algebra_simps)

lemma bary_x:
  "rx p * det3_exact a b c =
     sign_exact p b c * rx a + sign_exact p c a * rx b + sign_exact p a b * rx c"
  by (simp add: sign_exact_def det3_exact_def algebra_simps)

lemma bary_y:
  "ry p * det3_exact a b c =
     sign_exact p b c * ry a + sign_exact p c a * ry b + sign_exact p a b * ry c"
  by (simp add: sign_exact_def det3_exact_def algebra_simps)

lemma sign_exact_affine:
  assumes "u + v + w = 1"
    and "rx p = u * rx a + v * rx b + w * rx c"
    and "ry p = u * ry a + v * ry b + w * ry c"
  shows "sign_exact p b c = u * det3_exact a b c" "sign_exact p c a = v * det3_exact a b c"
    "sign_exact p a b = w * det3_exact a b c"
proof -
  have w: "w = 1 - u - v" using assms(1) by simp
  show "sign_exact p b c = u * det3_exact a b c"
    by (simp add: sign_exact_def det3_exact_def assms(2,3) w algebra_simps)
  show "sign_exact p c a = v * det3_exact a b c"
    by (simp add: sign_exact_def det3_exact_def assms(2,3) w algebra_simps)
  show "sign_exact p a b = w * det3_exact a b c"
    by (simp add: sign_exact_def det3_exact_def assms(2,3) w algebra_simps)
qed

text \<open>
  In exact arithmetic the test of \<open>point_in_triangle\<close> is membership in the closed triangle,
  for a triangle whose corners are not collinear.
\<close>

lemma point_in_triangle_exact_closed:
  assumes nd: "det3_exact (triA tri) (triB tri) (triC tri) \<noteq> 0"
  shows "point_in_triangle_exact tri pt \<longleftrightarrow> in_closed_triangle tri pt"
proof
  define a b c where "a = triA tri" and "b = triB tri" and "c = triC tri"
  define d1 d2 d3 where "d1 = sign_exact pt a b" and "d2 = sign_exact pt b c" and "d3 = sign_exact pt c a"
  define s where "s = det3_exact a b c"
  have s0: "s \<noteq> 0" using nd by (simp add: s_def a_def b_def c_def)
  have sum: "d1 + d2 + d3 = s"
    using sign_exact_sum[of pt a b c] by (simp add: d1_def d2_def d3_def s_def)
  assume "point_in_triangle_exact tri pt"
  then have mixed: "\<not> ((d1 < 0 \<or> d2 < 0 \<or> d3 < 0) \<and> (d1 > 0 \<or> d2 > 0 \<or> d3 > 0))"
    by (simp add: point_in_triangle_exact_def d1_def d2_def d3_def a_def b_def c_def)
  have nonneg: "0 \<le> d2 / s \<and> 0 \<le> d3 / s \<and> 0 \<le> d1 / s"
  proof (cases "d1 < 0 \<or> d2 < 0 \<or> d3 < 0")
    case True
    with mixed have le: "d1 \<le> 0" "d2 \<le> 0" "d3 \<le> 0" by auto
    with sum s0 have "s < 0" by linarith
    with le show ?thesis by (simp add: divide_nonpos_neg)
  next
    case False
    then have ge: "0 \<le> d1" "0 \<le> d2" "0 \<le> d3" by auto
    with sum s0 have "0 < s" by linarith
    with ge show ?thesis by simp
  qed
  have one: "d2 / s + d3 / s + d1 / s = 1"
    using sum s0 by (simp add: add_divide_distrib[symmetric])
  have px: "rx pt = d2 / s * rx a + d3 / s * rx b + d1 / s * rx c"
    using bary_x[of pt a b c] s0 by (simp add: d1_def d2_def d3_def s_def field_simps)
  have py: "ry pt = d2 / s * ry a + d3 / s * ry b + d1 / s * ry c"
    using bary_y[of pt a b c] s0 by (simp add: d1_def d2_def d3_def s_def field_simps)
  show "in_closed_triangle tri pt"
    unfolding in_closed_triangle_def
    using nonneg one px py by (intro exI[of _ "d2 / s"] exI[of _ "d3 / s"] exI[of _ "d1 / s"])
      (simp add: a_def b_def c_def)
next
  assume "in_closed_triangle tri pt"
  then obtain u v w where uvw: "0 \<le> u" "0 \<le> v" "0 \<le> w" "u + v + w = 1"
    and px: "rx pt = u * rx (triA tri) + v * rx (triB tri) + w * rx (triC tri)"
    and py: "ry pt = u * ry (triA tri) + v * ry (triB tri) + w * ry (triC tri)"
    unfolding in_closed_triangle_def by blast
  note sg = sign_exact_affine[OF uvw(4) px py]
  show "point_in_triangle_exact tri pt"
  proof (cases "0 < det3_exact (triA tri) (triB tri) (triC tri)")
    case True
    then have "0 \<le> sign_exact pt (triB tri) (triC tri)" "0 \<le> sign_exact pt (triC tri) (triA tri)"
      "0 \<le> sign_exact pt (triA tri) (triB tri)"
      using uvw sg by simp_all
    then show ?thesis by (auto simp: point_in_triangle_exact_def)
  next
    case False
    then have "det3_exact (triA tri) (triB tri) (triC tri) \<le> 0" by simp
    then have "sign_exact pt (triB tri) (triC tri) \<le> 0" "sign_exact pt (triC tri) (triA tri) \<le> 0"
      "sign_exact pt (triA tri) (triB tri) \<le> 0"
      using uvw sg by (simp_all add: mult_nonneg_nonpos)
    then show ?thesis by (auto simp: point_in_triangle_exact_def)
  qed
qed


subsection \<open>The half-plane test in binary64\<close>

lemma point_in_triangle_iff:
  "point_in_triangle tri pt \<longleftrightarrow>
     \<not> ((dless (sign pt (triA tri) (triB tri)) (Finite 0) \<or>
         dless (sign pt (triB tri) (triC tri)) (Finite 0) \<or>
         dless (sign pt (triC tri) (triA tri)) (Finite 0)) \<and>
        (dless (Finite 0) (sign pt (triA tri) (triB tri)) \<or>
         dless (Finite 0) (sign pt (triB tri) (triC tri)) \<or>
         dless (Finite 0) (sign pt (triC tri) (triA tri))))"
  unfolding point_in_triangle_def Let_def by (rule refl)

text \<open>On small coordinates no operation of \<open>sign\<close> rounds.\<close>

lemma small_coord_cases:
  assumes "small_coord d"
  obtains x where "d = Finite x" "x \<in> \<int>" "\<bar>x\<bar> \<le> 2 ^ 25"
  using assms by (cases d) (auto simp: small_coord_def)

lemma dsub_small:
  assumes "x \<in> \<int>" "\<bar>x\<bar> \<le> 2 ^ 25" "y \<in> \<int>" "\<bar>y\<bar> \<le> 2 ^ 25"
  shows "dsub (Finite x) (Finite y) = Finite (x - y)" "x - y \<in> \<int>" "\<bar>x - y\<bar> \<le> 2 ^ 26"
proof -
  show i: "x - y \<in> \<int>" using assms(1,3) by simp
  show b: "\<bar>x - y\<bar> \<le> 2 ^ 26" using assms(2,4) by simp
  then have "\<bar>x - y\<bar> \<le> 2 ^ 53" by simp
  with i show "dsub (Finite x) (Finite y) = Finite (x - y)" by (simp add: rnd_exact_int)
qed

lemma dmul_small:
  assumes "x \<in> \<int>" "\<bar>x\<bar> \<le> 2 ^ 26" "y \<in> \<int>" "\<bar>y\<bar> \<le> 2 ^ 26"
  shows "dmul (Finite x) (Finite y) = Finite (x * y)" "x * y \<in> \<int>" "\<bar>x * y\<bar> \<le> 2 ^ 52"
proof -
  show i: "x * y \<in> \<int>" using assms(1,3) by simp
  have "\<bar>x\<bar> * \<bar>y\<bar> \<le> 2 ^ 26 * 2 ^ 26"
    using assms(2,4) by (intro mult_mono) simp_all
  then show b: "\<bar>x * y\<bar> \<le> 2 ^ 52" by (simp add: abs_mult)
  then have "\<bar>x * y\<bar> \<le> 2 ^ 53" by simp
  with i show "dmul (Finite x) (Finite y) = Finite (x * y)" by (simp add: rnd_exact_int)
qed

lemma sign_small:
  assumes "small_point p" "small_point a" "small_point b"
  shows "sign p a b = Finite (sign_exact p a b)"
proof -
  from assms obtain px py ax ay bx "by" where
    p: "vx p = Finite px" "px \<in> \<int>" "\<bar>px\<bar> \<le> 2 ^ 25" "vy p = Finite py" "py \<in> \<int>" "\<bar>py\<bar> \<le> 2 ^ 25" and
    a: "vx a = Finite ax" "ax \<in> \<int>" "\<bar>ax\<bar> \<le> 2 ^ 25" "vy a = Finite ay" "ay \<in> \<int>" "\<bar>ay\<bar> \<le> 2 ^ 25" and
    b: "vx b = Finite bx" "bx \<in> \<int>" "\<bar>bx\<bar> \<le> 2 ^ 25" "vy b = Finite by" "by \<in> \<int>" "\<bar>by\<bar> \<le> 2 ^ 25"
    unfolding small_point_def by (elim conjE small_coord_cases) blast
  note d1 = dsub_small[OF p(2,3) b(2,3)]
  note d2 = dsub_small[OF a(5,6) b(5,6)]
  note d3 = dsub_small[OF a(2,3) b(2,3)]
  note d4 = dsub_small[OF p(5,6) b(5,6)]
  note m1 = dmul_small[OF d1(2,3) d2(2,3)]
  note m2 = dmul_small[OF d3(2,3) d4(2,3)]
  have i: "(px - bx) * (ay - by) - (ax - bx) * (py - by) \<in> \<int>" using m1(2) m2(2) by simp
  have "\<bar>(px - bx) * (ay - by) - (ax - bx) * (py - by)\<bar> \<le> 2 ^ 53"
    using m1(3) m2(3) by simp
  with i have "rnd ((px - bx) * (ay - by) - (ax - bx) * (py - by)) =
      Finite ((px - bx) * (ay - by) - (ax - bx) * (py - by))"
    by (rule rnd_exact_int)
  then have fin: "dsub (Finite ((px - bx) * (ay - by))) (Finite ((ax - bx) * (py - by))) =
      Finite ((px - bx) * (ay - by) - (ax - bx) * (py - by))"
    by (simp only: dsub.simps)
  show ?thesis
    unfolding sign_def sign_exact_def rx_def ry_def p(1,4) a(1,4) b(1,4) val.simps
      d1(1) d2(1) d3(1) d4(1) m1(1) m2(1)
    by (rule fin)
qed

lemma point_in_triangle_small:
  assumes "small_point (triA tri)" "small_point (triB tri)" "small_point (triC tri)"
    "small_point pt"
  shows "point_in_triangle tri pt \<longleftrightarrow> point_in_triangle_exact tri pt"
  by (simp add: point_in_triangle_iff point_in_triangle_exact_def sign_small assms)

text \<open>
  Claim C9, as stated, fails. The corners \<open>(134217729, 134217728)\<close>, \<open>(0, 0)\<close>, \<open>(3, 2)\<close>
  are not collinear and the determinant the source computes is not zero. For the point
  \<open>(134217730, 134217729)\<close> the first half-plane value is \<open>-1\<close> and the second is
  positive, so the point lies outside the triangle. The source computes the first value as
  zero, because the product \<open>134217729 * 134217729\<close> rounds to \<open>134217730 * 134217728\<close>,
  and reports the point as contained.
\<close>

theorem point_in_triangle_rounding_counterexample:
  "det3_exact (pnt 134217729 134217728) (pnt 0 0) (pnt 3 2) \<noteq> 0 \<and>
   det \<lparr>triA = pnt 134217729 134217728, triB = pnt 0 0, triC = pnt 3 2\<rparr> = Finite 134217726 \<and>
   point_in_triangle \<lparr>triA = pnt 134217729 134217728, triB = pnt 0 0, triC = pnt 3 2\<rparr>
     (pnt 134217730 134217729) \<and>
   \<not> in_closed_triangle \<lparr>triA = pnt 134217729 134217728, triB = pnt 0 0, triC = pnt 3 2\<rparr>
     (pnt 134217730 134217729)"
proof -
  let ?t = "\<lparr>triA = pnt 134217729 134217728, triB = pnt 0 0, triC = pnt 3 2\<rparr>"
  let ?p = "pnt 134217730 134217729"
  have r1: "rnd 18014398777917440 = Finite 18014398777917440"
    by (subst rnd_eval[of 54]) (simp_all add: round_even_def)
  have r2: "rnd 18014398777917441 = Finite 18014398777917440"
    by (subst rnd_eval[of 54]) (simp_all add: round_even_def)
  have nd: "det3_exact (triA ?t) (triB ?t) (triC ?t) \<noteq> 0"
    by (simp add: det3_exact_def pnt_def rx_def ry_def)
  have dt: "det ?t = Finite 134217726"
    by (simp add: det_def det3_def pnt_def rnd_exact_int)
  have s1: "sign ?p (pnt 134217729 134217728) (pnt 0 0) = Finite 0"
    by (simp add: sign_def pnt_def rnd_exact_int r1 r2 rnd_zero)
  have s2: "sign ?p (pnt 0 0) (pnt 3 2) = Finite 134217727"
    by (simp add: sign_def pnt_def rnd_exact_int)
  have s3: "sign ?p (pnt 3 2) (pnt 134217729 134217728) = Finite 0"
    by (simp add: sign_def pnt_def rnd_exact_int rnd_zero)
  have inside: "point_in_triangle ?t ?p"
    by (simp add: point_in_triangle_iff s1 s2 s3)
  have "\<not> point_in_triangle_exact ?t ?p"
    by (simp add: point_in_triangle_exact_def sign_exact_def pnt_def rx_def ry_def)
  with point_in_triangle_exact_closed[OF nd] have "\<not> in_closed_triangle ?t ?p" by simp
  with nd dt inside show ?thesis by simp
qed

text \<open>
  Claim C9, amended. For a triangle with non-collinear corners and a point, all with small
  coordinates (integers of magnitude at most \<open>2 ^ 25\<close>, so that no operation rounds),
  \<open>point_in_triangle\<close> holds exactly when the point lies inside or on the boundary of the
  triangle, that is, when it is a convex combination of the corners. Points on an edge or at
  a corner are convex combinations, so they are contained.
\<close>

theorem point_in_triangle_closed:
  assumes "small_point (triA tri)" "small_point (triB tri)" "small_point (triC tri)"
    and "small_point pt"
    and "det3_exact (triA tri) (triB tri) (triC tri) \<noteq> 0"
  shows "point_in_triangle tri pt \<longleftrightarrow> in_closed_triangle tri pt"
  using point_in_triangle_small[OF assms(1-4)] point_in_triangle_exact_closed[OF assms(5)]
  by simp

theorem point_in_triangle_closed_witness:
  "small_point (pnt 0 0) \<and> small_point (pnt 2 0) \<and> small_point (pnt 0 2) \<and>
   small_point (pnt 1 1) \<and> small_point (pnt 2 1) \<and>
   det3_exact (pnt 0 0) (pnt 2 0) (pnt 0 2) \<noteq> 0 \<and>
   point_in_triangle \<lparr>triA = pnt 0 0, triB = pnt 2 0, triC = pnt 0 2\<rparr> (pnt 1 1) \<and>
   in_closed_triangle \<lparr>triA = pnt 0 0, triB = pnt 2 0, triC = pnt 0 2\<rparr> (pnt 1 1) \<and>
   \<not> point_in_triangle \<lparr>triA = pnt 0 0, triB = pnt 2 0, triC = pnt 0 2\<rparr> (pnt 2 1) \<and>
   \<not> in_closed_triangle \<lparr>triA = pnt 0 0, triB = pnt 2 0, triC = pnt 0 2\<rparr> (pnt 2 1)"
proof -
  let ?t = "\<lparr>triA = pnt 0 0, triB = pnt 2 0, triC = pnt 0 2\<rparr>"
  have sm: "small_point (triA ?t)" "small_point (triB ?t)" "small_point (triC ?t)"
    "small_point (pnt 1 1)" "small_point (pnt 2 1)"
    by (simp_all add: small_point_def small_coord_def pnt_def)
  have nd: "det3_exact (triA ?t) (triB ?t) (triC ?t) \<noteq> 0"
    by (simp add: det3_exact_def pnt_def rx_def ry_def)
  have i: "point_in_triangle ?t (pnt 1 1)"
    by (simp add: point_in_triangle_iff sign_def pnt_def rnd_exact_int)
  have o: "\<not> point_in_triangle ?t (pnt 2 1)"
    by (simp add: point_in_triangle_iff sign_def pnt_def rnd_exact_int)
  show ?thesis
    using sm nd i o point_in_triangle_closed[OF sm(1,2,3,4) nd]
      point_in_triangle_closed[OF sm(1,2,3,5) nd] by simp
qed

section \<open>The index lookup\<close>

text \<open>
  Claim C2. At the last position of a ring the lookup returns the element itself as
  successor, not the first element: on the ring \<open>[0, 1, 2]\<close> at position 2 the source gives
  \<open>(1, 2, 2)\<close>, the cyclic reading gives \<open>(1, 2, 0)\<close>.
\<close>

theorem build_triangle_at_index_last:
  "build_triangle_at_index [0::nat, 1, 2] 2 = Inr \<lparr>triA = 1, triB = 2, triC = 2\<rparr> \<and>
   ring_triangle [0::nat, 1, 2] 2 = \<lparr>triA = 1, triB = 2, triC = 0\<rparr>"
  by (simp add: build_triangle_at_index_def ring_triangle_def)

text \<open>At every position but the last the lookup is the cyclic one.\<close>

lemma build_triangle_at_index_inner:
  "0 < length v \<Longrightarrow> i < length v - 1 \<Longrightarrow> build_triangle_at_index v i = Inr (ring_triangle v i)"
  apply (cases "i = 0")
  apply (auto simp: build_triangle_at_index_def ring_triangle_def  mod_Suc)
  apply (simp add: mod_if)
  done

section \<open>Ear selection\<close>

text \<open>
  Claim C10. When the ear set is non-empty, \<open>get_next_ear\<close> returns its smallest member:
  the set is iterated in increasing order and the first element is taken.
\<close>

theorem get_next_ear_smallest:
  "oset (ear_list p) \<Longrightarrow> has_ear p \<Longrightarrow> get_next_ear p = Inr (Min (set (ear_list p)))"
  by (cases "ear_list p") (auto simp: oset_def has_ear_def get_next_ear_def intro!: Min_eqI[symmetric])

theorem get_next_ear_smallest_witness:
  "oset (ear_list \<lparr>vertices = [], vertex_list = [], convex_list = [], reflex_list = [],
                    ear_list = [1, 4, 6]\<rparr>) \<and>
   has_ear \<lparr>vertices = [], vertex_list = [], convex_list = [], reflex_list = [],
            ear_list = [1, 4, 6]\<rparr> \<and>
   get_next_ear \<lparr>vertices = [], vertex_list = [], convex_list = [], reflex_list = [],
                 ear_list = [1, 4, 6]\<rparr> = Inr 1"
proof -
  let ?p = "\<lparr>vertices = [], vertex_list = [], convex_list = [], reflex_list = [],
             ear_list = [1, 4, 6]\<rparr>"
  have o: "oset (ear_list ?p)" by (simp add: oset_def)
  have h: "has_ear ?p" by (simp add: has_ear_def)
  show ?thesis using o h get_next_ear_smallest[OF o h] by simp
qed

section \<open>The state invariant\<close>

lemma build_triangle_at_element_pos:
  "distinct ring \<Longrightarrow> i < length ring \<Longrightarrow>
     build_triangle_at_element ring (ring ! i) = build_triangle_at_index ring i"
  by (simp add: build_triangle_at_element_def find_pos_distinct)

lemma build_triangle_at_element_in_ring:
  assumes "v \<in> set ring"
  shows "\<exists>abc. build_triangle_at_element ring v = Inr abc \<and> triB abc = v \<and>
               triA abc \<in> set ring \<and> triC abc \<in> set ring"
proof -
  from assms obtain i where i: "find_pos ring v = Some i"
    using find_pos_None[of ring v] by (cases "find_pos ring v") auto
  then have "i < length ring" "ring ! i = v" by (auto dest: find_pos_Some)
  then show ?thesis using i
    by (auto simp: build_triangle_at_element_def build_triangle_at_index_def)
qed

lemma build_triangle_at_element_Inr:
  "build_triangle_at_element ring v = Inr abc \<Longrightarrow>
     v \<in> set ring \<and> triB abc = v \<and> triA abc \<in> set ring \<and> triC abc \<in> set ring"
proof -
  assume a: "build_triangle_at_element ring v = Inr abc"
  then have "find_pos ring v \<noteq> None"
    by (auto simp: build_triangle_at_element_def split: option.splits)
  then have v: "v \<in> set ring" by (simp add: find_pos_None)
  from build_triangle_at_element_in_ring[OF v] a v show ?thesis by auto
qed

lemma build_triangle_at_element_last:
  assumes "distinct ring" "ring \<noteq> []" "build_triangle_at_element ring (last ring) = Inr abc"
  shows "triC abc = triB abc"
proof -
  have l: "last ring = ring ! (length ring - 1)" using assms(2) by (rule last_conv_nth)
  have "build_triangle_at_element ring (last ring) = build_triangle_at_index ring (length ring - 1)"
    unfolding l using assms(1,2) by (intro build_triangle_at_element_pos) simp_all
  with assms(3) show ?thesis
    by (auto simp: build_triangle_at_index_def split: if_splits)
qed

lemma make_triangle_real_Inr:
  "make_triangle_real vs fake = Inr abc \<longleftrightarrow>
     (triA fake < length vs \<and> triB fake < length vs \<and> triC fake < length vs \<and>
      abc = \<lparr>triA = vs ! triA fake, triB = vs ! triB fake, triC = vs ! triC fake\<rparr>)"
  by (auto simp: make_triangle_real_def vec_at_def)

lemma build_real_triangle_at_Inr:
  "build_real_triangle_at p v = Inr abc \<longleftrightarrow>
     (\<exists>fake. build_fake_triangle_at p v = Inr fake \<and> make_triangle_real (vertices p) fake = Inr abc)"
  by (auto simp: build_real_triangle_at_def split: sum.splits)

lemma build_real_triangle_at_total:
  assumes "v \<in> set (vertex_list p)" "\<forall>w \<in> set (vertex_list p). w < length (vertices p)"
  shows "\<exists>fake. build_fake_triangle_at p v = Inr fake \<and>
           build_real_triangle_at p v =
             Inr \<lparr>triA = vertices p ! triA fake, triB = vertices p ! triB fake,
                  triC = vertices p ! triC fake\<rparr>"
proof -
  from build_triangle_at_element_in_ring[OF assms(1)] obtain fake where
    f: "build_triangle_at_element (vertex_list p) v = Inr fake" "triB fake = v"
       "triA fake \<in> set (vertex_list p)" "triC fake \<in> set (vertex_list p)" by blast
  with assms have "make_triangle_real (vertices p) fake =
      Inr \<lparr>triA = vertices p ! triA fake, triB = vertices p ! triB fake,
           triC = vertices p ! triC fake\<rparr>"
    by (simp add: make_triangle_real_Inr)
  with f(1) show ?thesis
    by (simp add: build_real_triangle_at_def build_fake_triangle_at_def)
qed

lemma build_real_triangle_at_cong:
  "vertices p' = vertices p \<Longrightarrow> vertex_list p' = vertex_list p \<Longrightarrow>
     build_real_triangle_at p' v = build_real_triangle_at p v"
  by (simp add: build_real_triangle_at_def build_fake_triangle_at_def cong: sum.case_cong)

text \<open>
  A triangle whose last two corners are the same point has a determinant that is zero or
  NaN, whatever the coordinates are: it tests neither convex nor reflex.
\<close>

lemma det_degenerate: "triC abc = triB abc \<Longrightarrow> zero_or_nan (det abc)"
  by (simp add: det_def det3_def Let_def zero_or_nan_dsub zero_or_nan_dmul_left
      zero_or_nan_dmul_right zero_or_nan_dsub_self)

lemma last_not_fresh_convex:
  assumes "distinct (vertex_list p)" "vertex_list p \<noteq> []"
    "build_real_triangle_at p (last (vertex_list p)) = Inr abc"
  shows "\<not> geom_is_convex abc" "\<not> geom_is_reflex abc"
proof -
  from assms(3) obtain fake where
    f: "build_triangle_at_element (vertex_list p) (last (vertex_list p)) = Inr fake"
    and r: "make_triangle_real (vertices p) fake = Inr abc"
    by (auto simp: build_real_triangle_at_Inr build_fake_triangle_at_def)
  from build_triangle_at_element_last[OF assms(1,2) f] r have "triC abc = triB abc"
    by (auto simp: make_triangle_real_Inr)
  then have "zero_or_nan (det abc)" by (rule det_degenerate)
  then have "\<not> dless (det abc) (Finite 0) \<and> \<not> dless (Finite 0) (det abc)"
    by (rule zero_or_nan_dless)
  then show "\<not> geom_is_convex abc" "\<not> geom_is_reflex abc"
    by (simp_all add: geom_is_convex_def geom_is_reflex_def)
qed

lemma update_vertex_inv:
  assumes inv: "poly_inv p" and a: "a \<in> set (vertex_list p)"
  shows "\<exists>p'. update_vertex p a = Inr p' \<and> poly_inv p'"
proof -
  from inv have bound: "\<forall>w \<in> set (vertex_list p). w < length (vertices p)"
    and dist: "distinct (vertex_list p)" by (simp_all add: poly_inv_def)
  from build_real_triangle_at_total[OF a bound] obtain abc where
    t: "build_real_triangle_at p a = Inr abc" by blast
  show ?thesis
  proof (cases "a \<in> set (convex_list p) \<or> geom_is_convex abc")
    case False
    then have "update_vertex p a = Inr p"
      by (simp add: update_vertex_def update_vertex_convexity_def is_convex_def t)
    with inv show ?thesis by simp
  next
    case True
    define p1 where "p1 = p\<lparr>convex_list := set_insert a (convex_list p),
                             reflex_list := set_erase a (reflex_list p)\<rparr>"
    from True have c: "update_vertex_convexity p a = Inr (True, p1)"
      by (auto simp: update_vertex_convexity_def is_convex_def t p1_def)
    have "build_real_triangle_at p1 a = build_real_triangle_at p a"
      by (rule build_real_triangle_at_cong) (simp_all add: p1_def)
    with t have t1: "build_real_triangle_at p1 a = Inr abc" by simp
    have notlast: "a \<noteq> last (vertex_list p)"
    proof
      assume e: "a = last (vertex_list p)"
      from a have ne: "vertex_list p \<noteq> []" by auto
      with inv e have "a \<notin> set (convex_list p)" by (simp add: poly_inv_def)
      moreover have "\<not> geom_is_convex abc"
        using last_not_fresh_convex(1)[OF dist ne] t e by simp
      ultimately show False using True by simp
    qed
    have inv1: "poly_inv p1"
      using inv a notlast
      by (auto simp: poly_inv_def p1_def set_set_insert set_set_erase oset_insert oset_erase)
    define b where "b = no_reflex_inside (vertices p1) abc (reflex_list p1)"
    define p2 where "p2 = (if b then p1\<lparr>ear_list := set_insert a (ear_list p1)\<rparr>
                           else p1\<lparr>ear_list := set_erase a (ear_list p1)\<rparr>)"
    have e: "update_vertex_earness p1 a = Inr (b, p2)"
      by (simp add: update_vertex_earness_def is_ear_def t1 b_def p2_def)
    have "a \<in> set (convex_list p1)" by (simp add: p1_def set_set_insert)
    with inv1 have "poly_inv p2"
      by (auto simp: poly_inv_def p2_def set_set_insert set_set_erase oset_insert oset_erase)
    moreover have "update_vertex p a = Inr p2"
      by (simp add: update_vertex_def c e)
    ultimately show ?thesis by blast
  qed
qed


lemma build_triangle_at_element_inner:
  assumes "distinct ring" "v \<in> set ring" "v \<noteq> last ring"
  shows "\<exists>i. i < length ring - 1 \<and> ring ! i = v \<and>
           build_triangle_at_element ring v =
             Inr \<lparr>triA = ring ! (if 0 < i then i - 1 else length ring - 1), triB = v,
                  triC = ring ! (Suc i)\<rparr>"
proof -
  from assms(2) obtain i where i: "i < length ring" "ring ! i = v"
    by (auto simp: in_set_conv_nth)
  have "i \<noteq> length ring - 1"
  proof
    assume "i = length ring - 1"
    moreover have "ring \<noteq> []" using i(1) by auto
    ultimately have "ring ! i = last ring" by (simp add: last_conv_nth)
    with assms(3) i(2) show False by simp
  qed
  with i have lt: "i < length ring - 1" by simp
  have "build_triangle_at_element ring (ring ! i) = build_triangle_at_index ring i"
    using assms(1) i(1) by (rule build_triangle_at_element_pos)
  with i lt show ?thesis
    by (intro exI[of _ i]) (simp add: build_triangle_at_index_def)
qed

lemma last_remove1: "xs \<noteq> [] \<Longrightarrow> v \<noteq> last xs \<Longrightarrow> last (remove1 v xs) = last xs \<and> remove1 v xs \<noteq> []"
  by (induction xs) (auto split: if_splits)

lemma erase_vertex_inv:
  assumes inv: "poly_inv p" and v: "v \<in> set (vertex_list p)" "v \<noteq> last (vertex_list p)"
  shows "poly_inv (erase_vertex p v)"
proof -
  from v have ne: "vertex_list p \<noteq> []" by auto
  note l = last_remove1[OF ne v(2)]
  from inv have d: "distinct (vertex_list p)" by (simp add: poly_inv_def)
  then have s: "set (remove1 v (vertex_list p)) = set (vertex_list p) - {v}" by simp
  show ?thesis
    using inv l
    by (auto simp: poly_inv_def erase_vertex_def s set_set_erase oset_erase)
qed

lemma remove_vertex_inv:
  assumes inv: "poly_inv p" and v: "v \<in> set (vertex_list p)" "v \<noteq> last (vertex_list p)"
  shows "\<exists>abc p'. remove_vertex p v = Inr (abc, p') \<and> poly_inv p' \<and>
           triB abc = v \<and> triA abc \<noteq> v \<and> triC abc \<noteq> v \<and>
           triA abc \<in> set (vertex_list p) \<and> triC abc \<in> set (vertex_list p) \<and>
           (2 < poly_size p \<longrightarrow> triA abc \<noteq> triC abc)"
proof -
  let ?ring = "vertex_list p"
  from inv have d: "distinct ?ring" by (simp add: poly_inv_def)
  from build_triangle_at_element_inner[OF d v] obtain i where
    i: "i < length ?ring - 1" "?ring ! i = v" and
    t: "build_triangle_at_element ?ring v =
          Inr \<lparr>triA = ?ring ! (if 0 < i then i - 1 else length ?ring - 1), triB = v,
               triC = ?ring ! (Suc i)\<rparr>" by blast
  define j where "j = (if 0 < i then i - 1 else length ?ring - 1)"
  define abc where "abc = \<lparr>triA = ?ring ! j, triB = v, triC = ?ring ! (Suc i)\<rparr>"
  have f: "build_fake_triangle_at p v = Inr abc"
    using t by (simp add: build_fake_triangle_at_def abc_def j_def)
  have j: "j < length ?ring" "j \<noteq> i" "2 < length ?ring \<longrightarrow> j \<noteq> Suc i"
    using i(1) by (auto simp: j_def)
  have si: "Suc i < length ?ring" "Suc i \<noteq> i" using i(1) by auto
  have il: "i < length ?ring" using i(1) by simp
  have a_in: "triA abc \<in> set ?ring" unfolding abc_def using j(1) by simp
  have c_in: "triC abc \<in> set ?ring" unfolding abc_def using si(1) by simp
  have a_ne: "triA abc \<noteq> v"
    using nth_eq_iff_index_eq[OF d j(1) il] j(2) i(2) by (simp add: abc_def)
  have c_ne: "triC abc \<noteq> v"
    using nth_eq_iff_index_eq[OF d si(1) il] i(2) by (simp add: abc_def)
  have ac: "2 < poly_size p \<longrightarrow> triA abc \<noteq> triC abc"
    using nth_eq_iff_index_eq[OF d j(1) si(1)] j(3) by (simp add: abc_def poly_size_def)
  let ?p0 = "erase_vertex p v"
  have inv0: "poly_inv ?p0" by (rule erase_vertex_inv[OF inv v])
  have s: "set (vertex_list ?p0) = set ?ring - {v}" using d by (simp add: erase_vertex_def)
  from a_in a_ne s have "triA abc \<in> set (vertex_list ?p0)" by simp
  from update_vertex_inv[OF inv0 this] obtain p1 where
    u1: "update_vertex ?p0 (triA abc) = Inr p1" and inv1: "poly_inv p1" by blast
  have "vertex_list p1 = vertex_list ?p0" using u1 by (simp add: update_vertex_frame)
  with c_in c_ne s have "triC abc \<in> set (vertex_list p1)" by simp
  from update_vertex_inv[OF inv1 this] obtain p2 where
    u2: "update_vertex p1 (triC abc) = Inr p2" and inv2: "poly_inv p2" by blast
  have "remove_vertex p v = Inr (abc, p2)"
    by (simp add: remove_vertex_def f u1 u2)
  moreover have "triB abc = v" by (simp add: abc_def)
  ultimately show ?thesis using inv2 a_ne c_ne a_in c_in ac by blast
qed

lemma fresh_convex_cong:
  "vertices p' = vertices p \<Longrightarrow> vertex_list p' = vertex_list p \<Longrightarrow>
     fresh_convex p' v = fresh_convex p v"
  by (simp add: fresh_convex_def build_real_triangle_at_cong[of p' p])

lemma fresh_reflex_cong:
  "vertices p' = vertices p \<Longrightarrow> vertex_list p' = vertex_list p \<Longrightarrow>
     fresh_reflex p' v = fresh_reflex p v"
  by (simp add: fresh_reflex_def build_real_triangle_at_cong[of p' p])

lemma is_ear_cong:
  "vertices p' = vertices p \<Longrightarrow> vertex_list p' = vertex_list p \<Longrightarrow>
   reflex_list p' = reflex_list p \<Longrightarrow> is_ear p' v False = is_ear p v False"
  by (simp add: is_ear_def build_real_triangle_at_cong[of p' p] cong: sum.case_cong)

lemma fresh_ear_cong:
  "vertices p' = vertices p \<Longrightarrow> vertex_list p' = vertex_list p \<Longrightarrow>
   reflex_list p' = reflex_list p \<Longrightarrow> fresh_ear p' v = fresh_ear p v"
  by (simp add: fresh_ear_def is_ear_cong[of p' p])

lemma classify_loop_spec:
  assumes "set xs \<subseteq> set (vertex_list p)" "\<forall>w \<in> set (vertex_list p). w < length (vertices p)"
  shows "\<exists>p'. classify_loop p xs = Inr p' \<and> vertices p' = vertices p \<and>
           vertex_list p' = vertex_list p \<and> ear_list p' = ear_list p \<and>
           set (convex_list p') = set (convex_list p) \<union> {v \<in> set xs. fresh_convex p v} \<and>
           set (reflex_list p') = set (reflex_list p) \<union> {v \<in> set xs. fresh_reflex p v} \<and>
           (oset (convex_list p) \<longrightarrow> oset (convex_list p')) \<and>
           (oset (reflex_list p) \<longrightarrow> oset (reflex_list p'))"
  using assms
proof (induction xs arbitrary: p)
  case Nil
  then show ?case by simp
next
  case (Cons x xs)
  from Cons.prems have x: "x \<in> set (vertex_list p)" by simp
  from build_real_triangle_at_total[OF x Cons.prems(2)] obtain abc where
    t: "build_real_triangle_at p x = Inr abc" by blast
  define p1 where "p1 = (if geom_is_convex abc
                     then p\<lparr>convex_list := set_insert x (convex_list p)\<rparr> else p)"
  define p2 where "p2 = (if geom_is_reflex abc
                     then p1\<lparr>reflex_list := set_insert x (reflex_list p1)\<rparr> else p1)"
  have step: "classify_loop p (x # xs) = classify_loop p2 xs"
    by (simp add: t p1_def p2_def Let_def)
  have same: "vertices p2 = vertices p" "vertex_list p2 = vertex_list p" "ear_list p2 = ear_list p"
    by (simp_all add: p1_def p2_def)
  have cv: "set (convex_list p2) = set (convex_list p) \<union> {v. v = x \<and> fresh_convex p v}"
    by (auto simp: p1_def p2_def fresh_convex_def t set_set_insert)
  have rf: "set (reflex_list p2) = set (reflex_list p) \<union> {v. v = x \<and> fresh_reflex p v}"
    by (auto simp: p1_def p2_def fresh_reflex_def t set_set_insert)
  have os: "oset (convex_list p) \<longrightarrow> oset (convex_list p2)"
    "oset (reflex_list p) \<longrightarrow> oset (reflex_list p2)"
    by (auto simp: p1_def p2_def oset_insert)
  have "set xs \<subseteq> set (vertex_list p2)" "\<forall>w \<in> set (vertex_list p2). w < length (vertices p2)"
    using Cons.prems by (simp_all add: same)
  from Cons.IH[OF this] obtain p' where
    r: "classify_loop p2 xs = Inr p'" "vertices p' = vertices p2"
       "vertex_list p' = vertex_list p2" "ear_list p' = ear_list p2"
       "set (convex_list p') = set (convex_list p2) \<union> {v \<in> set xs. fresh_convex p2 v}"
       "set (reflex_list p') = set (reflex_list p2) \<union> {v \<in> set xs. fresh_reflex p2 v}"
       "oset (convex_list p2) \<longrightarrow> oset (convex_list p')"
       "oset (reflex_list p2) \<longrightarrow> oset (reflex_list p')" by (elim exE conjE, intro that)
  have fc: "\<And>v. fresh_convex p2 v = fresh_convex p v" "\<And>v. fresh_reflex p2 v = fresh_reflex p v"
    by (simp_all add: fresh_convex_cong[OF same(1,2)] fresh_reflex_cong[OF same(1,2)])
  have cv': "set (convex_list p') = set (convex_list p) \<union> {v \<in> set (x # xs). fresh_convex p v}"
    unfolding r(5) fc cv by auto
  have rf': "set (reflex_list p') = set (reflex_list p) \<union> {v \<in> set (x # xs). fresh_reflex p v}"
    unfolding r(6) fc rf by auto
  have "classify_loop p (x # xs) = Inr p'" using step r(1) by simp
  moreover have "vertices p' = vertices p" "vertex_list p' = vertex_list p" "ear_list p' = ear_list p"
    using r(2,3,4) same by simp_all
  moreover have "oset (convex_list p) \<longrightarrow> oset (convex_list p')"
    "oset (reflex_list p) \<longrightarrow> oset (reflex_list p')"
    using r(7,8) os by blast+
  ultimately show ?case using cv' rf' by (intro exI[of _ p'] conjI)
qed

lemma ear_loop_spec:
  assumes "set xs \<subseteq> set (vertex_list p)" "\<forall>w \<in> set (vertex_list p). w < length (vertices p)"
  shows "\<exists>p'. ear_loop p xs = Inr p' \<and> vertices p' = vertices p \<and>
           vertex_list p' = vertex_list p \<and> convex_list p' = convex_list p \<and>
           reflex_list p' = reflex_list p \<and>
           set (ear_list p') = set (ear_list p) \<union> {v \<in> set xs. fresh_ear p v} \<and>
           (oset (ear_list p) \<longrightarrow> oset (ear_list p'))"
  using assms
proof (induction xs arbitrary: p)
  case Nil
  then show ?case by simp
next
  case (Cons x xs)
  from Cons.prems have x: "x \<in> set (vertex_list p)" by simp
  from build_real_triangle_at_total[OF x Cons.prems(2)] obtain abc where
    t: "build_real_triangle_at p x = Inr abc" by blast
  define b where "b = no_reflex_inside (vertices p) abc (reflex_list p)"
  have e: "is_ear p x False = Inr b" by (simp add: is_ear_def t b_def)
  define p1 where "p1 = (if b then p\<lparr>ear_list := set_insert x (ear_list p)\<rparr> else p)"
  have step: "ear_loop p (x # xs) = ear_loop p1 xs"
    by (simp add: e p1_def)
  have same: "vertices p1 = vertices p" "vertex_list p1 = vertex_list p"
    "reflex_list p1 = reflex_list p" "convex_list p1 = convex_list p"
    by (simp_all add: p1_def)
  have er: "set (ear_list p1) = set (ear_list p) \<union> {v. v = x \<and> fresh_ear p v}"
    by (auto simp: p1_def fresh_ear_def e set_set_insert)
  have os: "oset (ear_list p) \<longrightarrow> oset (ear_list p1)"
    by (auto simp: p1_def oset_insert)
  have "set xs \<subseteq> set (vertex_list p1)" "\<forall>w \<in> set (vertex_list p1). w < length (vertices p1)"
    using Cons.prems by (simp_all add: same)
  from Cons.IH[OF this] obtain p' where
    r: "ear_loop p1 xs = Inr p'" "vertices p' = vertices p1"
       "vertex_list p' = vertex_list p1" "convex_list p' = convex_list p1"
       "reflex_list p' = reflex_list p1"
       "set (ear_list p') = set (ear_list p1) \<union> {v \<in> set xs. fresh_ear p1 v}"
       "oset (ear_list p1) \<longrightarrow> oset (ear_list p')" by (elim exE conjE, intro that)
  have fe: "\<And>v. fresh_ear p1 v = fresh_ear p v"
    by (simp add: fresh_ear_cong[OF same(1,2,3)])
  have er': "set (ear_list p') = set (ear_list p) \<union> {v \<in> set (x # xs). fresh_ear p v}"
    unfolding r(6) fe er by auto
  have "ear_loop p (x # xs) = Inr p'" using step r(1) by simp
  moreover have "vertices p' = vertices p" "vertex_list p' = vertex_list p"
    "convex_list p' = convex_list p" "reflex_list p' = reflex_list p"
    using r(2,3,4,5) same by simp_all
  moreover have "oset (ear_list p) \<longrightarrow> oset (ear_list p')"
    using r(7) os by blast
  ultimately show ?case using er' by (intro exI[of _ p'] conjI)
qed

lemma polygon_init_spec:
  "\<exists>p. polygon_init vs = Inr p \<and> vertices p = vs \<and> vertex_list p = [0..<length vs] \<and>
       set (convex_list p) = {v. v < length vs \<and> fresh_convex p v} \<and>
       set (reflex_list p) = {v. v < length vs \<and> fresh_reflex p v} \<and>
       set (ear_list p) = {v \<in> set (convex_list p). fresh_ear p v} \<and>
       oset (convex_list p) \<and> oset (reflex_list p) \<and> oset (ear_list p)"
proof -
  define p0 where "p0 = \<lparr>vertices = vs, vertex_list = [0..<length vs],
                convex_list = [], reflex_list = [], ear_list = []\<rparr>"
  have b0: "\<forall>w \<in> set (vertex_list p0). w < length (vertices p0)" by (simp add: p0_def)
  have "set (vertex_list p0) \<subseteq> set (vertex_list p0)" by simp
  from classify_loop_spec[OF this b0] obtain p1 where
    c: "classify_loop p0 (vertex_list p0) = Inr p1" "vertices p1 = vertices p0"
       "vertex_list p1 = vertex_list p0" "ear_list p1 = ear_list p0"
       "set (convex_list p1) = set (convex_list p0) \<union> {v \<in> set (vertex_list p0). fresh_convex p0 v}"
       "set (reflex_list p1) = set (reflex_list p0) \<union> {v \<in> set (vertex_list p0). fresh_reflex p0 v}"
       "oset (convex_list p0) \<longrightarrow> oset (convex_list p1)"
       "oset (reflex_list p0) \<longrightarrow> oset (reflex_list p1)" by (elim exE conjE, intro that)
  have b1: "\<forall>w \<in> set (vertex_list p1). w < length (vertices p1)" using b0 c(2,3) by simp
  have "convex_list p0 = []" by (simp add: p0_def)
  then have "set (convex_list p1) \<subseteq> set (vertex_list p1)" unfolding c(3) c(5) by auto
  from ear_loop_spec[OF this b1] obtain p2 where
    e: "ear_loop p1 (convex_list p1) = Inr p2" "vertices p2 = vertices p1"
       "vertex_list p2 = vertex_list p1" "convex_list p2 = convex_list p1"
       "reflex_list p2 = reflex_list p1"
       "set (ear_list p2) = set (ear_list p1) \<union> {v \<in> set (convex_list p1). fresh_ear p1 v}"
       "oset (ear_list p1) \<longrightarrow> oset (ear_list p2)" by (elim exE conjE, intro that)
  have i: "polygon_init vs = Inr p2"
    unfolding polygon_init_def Let_def p0_def[symmetric] by (simp add: c(1) e(1))
  have v2: "vertices p2 = vertices p0" "vertex_list p2 = vertex_list p0"
    using c e by simp_all
  have f: "\<And>v. fresh_convex p0 v = fresh_convex p2 v" "\<And>v. fresh_reflex p0 v = fresh_reflex p2 v"
    "\<And>v. fresh_ear p1 v = fresh_ear p2 v"
    using fresh_convex_cong[OF v2] fresh_reflex_cong[OF v2] fresh_ear_cong[OF e(2,3,5)]
    by simp_all
  have o0: "oset (convex_list p0)" "oset (reflex_list p0)" "oset (ear_list p1)"
    using c(4) by (simp_all add: p0_def oset_def)
  have s0: "set (vertex_list p0) = {v. v < length vs}" "convex_list p0 = []" "reflex_list p0 = []"
    "ear_list p0 = []" "vertices p0 = vs" "vertex_list p0 = [0..<length vs]"
    by (auto simp: p0_def)
  have cv: "set (convex_list p2) = {v. v < length vs \<and> fresh_convex p2 v}"
    unfolding e(4) c(5) f s0 by simp
  have rf: "set (reflex_list p2) = {v. v < length vs \<and> fresh_reflex p2 v}"
    unfolding e(5) c(6) f s0 by simp
  have er: "set (ear_list p2) = {v \<in> set (convex_list p2). fresh_ear p2 v}"
    unfolding e(6) e(4) c(4) f s0 by simp
  have os: "oset (convex_list p2)" "oset (reflex_list p2)" "oset (ear_list p2)"
    using o0 c(7,8) e(7) by (simp_all add: e(4,5))
  have "vertices p2 = vs" "vertex_list p2 = [0..<length vs]" using v2 s0 by simp_all
  with i cv rf er os show ?thesis by (intro exI[of _ p2] conjI)
qed

lemma fresh_convex_not_reflex: "fresh_convex p v \<Longrightarrow> \<not> fresh_reflex p v"
  by (auto simp: fresh_convex_def fresh_reflex_def geom_is_convex_def geom_is_reflex_def
      dest: dless_asym
      split: sum.splits)

lemma last_not_fresh:
  assumes "distinct (vertex_list p)" "vertex_list p \<noteq> []"
  shows "\<not> fresh_convex p (last (vertex_list p))" "\<not> fresh_reflex p (last (vertex_list p))"
  using last_not_fresh_convex[OF assms]
  by (auto simp: fresh_convex_def fresh_reflex_def split: sum.splits)

lemma polygon_init_inv:
  "\<exists>p. polygon_init vs = Inr p \<and> vertices p = vs \<and> vertex_list p = [0..<length vs] \<and> poly_inv p"
proof -
  from polygon_init_spec[of vs] obtain p where
    p: "polygon_init vs = Inr p" "vertices p = vs" "vertex_list p = [0..<length vs]"
       "set (convex_list p) = {v. v < length vs \<and> fresh_convex p v}"
       "set (reflex_list p) = {v. v < length vs \<and> fresh_reflex p v}"
       "set (ear_list p) = {v \<in> set (convex_list p). fresh_ear p v}"
       "oset (convex_list p)" "oset (reflex_list p)" "oset (ear_list p)" by (elim exE conjE, intro that)
  have d: "distinct (vertex_list p)" by (simp add: p(3))
  have l: "vertex_list p \<noteq> [] \<longrightarrow> last (vertex_list p) \<notin> set (convex_list p)"
    using last_not_fresh(1)[OF d] by (simp add: p(4))
  have "poly_inv p"
    unfolding poly_inv_def
    using d l p(7,8,9) by (auto simp: p(2,3,4,5,6) dest: fresh_convex_not_reflex)
  with p(1,2,3) show ?thesis by blast
qed

lemma poly_inv_reflex_bound:
  "poly_inv p \<Longrightarrow> r \<in> set (reflex_list p) \<Longrightarrow> r < length (vertices p)"
  by (auto simp: poly_inv_def)

section \<open>The driver loop\<close>

lemma get_next_ear_Inr: "has_ear p \<Longrightarrow> \<exists>v. get_next_ear p = Inr v \<and> v \<in> set (ear_list p)"
  by (cases "ear_list p") (simp_all add: has_ear_def get_next_ear_def)

lemma remove_ear_inv:
  assumes inv: "poly_inv p" and v: "v \<in> set (ear_list p)"
  shows "\<exists>abc p'. remove_vertex p v = Inr (abc, p') \<and> poly_inv p' \<and>
           (2 < poly_size p \<longrightarrow> valid_triangle (length (vertices p)) abc)"
proof -
  from inv v have c: "v \<in> set (convex_list p)" and r: "v \<in> set (vertex_list p)"
    by (auto simp: poly_inv_def)
  then have nl: "v \<noteq> last (vertex_list p)" using inv by (auto simp: poly_inv_def)
  from remove_vertex_inv[OF inv r nl] obtain abc p' where
    x: "remove_vertex p v = Inr (abc, p')" "poly_inv p'" "triB abc = v" "triA abc \<noteq> v"
       "triC abc \<noteq> v" "triA abc \<in> set (vertex_list p)" "triC abc \<in> set (vertex_list p)"
       "2 < poly_size p \<longrightarrow> triA abc \<noteq> triC abc"
    by (elim exE conjE, intro that)
  from inv have "\<forall>w \<in> set (vertex_list p). w < length (vertices p)" by (simp add: poly_inv_def)
  with x r have "2 < poly_size p \<longrightarrow> valid_triangle (length (vertices p)) abc"
    by (auto simp: valid_triangle_def)
  with x(1,2) show ?thesis by blast
qed

lemma triangulate_loop_errors:
  "poly_inv p \<Longrightarrow> triangulate_loop p ts = Inl e \<Longrightarrow> e = NonSimplePolygon"
proof (induction p ts rule: triangulate_loop.induct)
  case (1 p ts)
  note inv = "1.prems"(1) and res = "1.prems"(2)
  have big: "2 < poly_size p"
    using res by (auto simp: triangulate_loop.simps[of p ts] split: if_splits)
  show ?case
  proof (cases "has_ear p")
    case False
    with big res show ?thesis by (simp add: triangulate_loop.simps[of p ts])
  next
    case True
    then have nn: "\<not> \<not> has_ear p" by simp
    from get_next_ear_Inr[OF True] obtain v where
      v: "get_next_ear p = Inr v" "v \<in> set (ear_list p)" by blast
    from remove_ear_inv[OF inv v(2)] obtain abc p' where
      r: "remove_vertex p v = Inr (abc, p')" "poly_inv p'" by blast
    have step: "triangulate_loop p ts = triangulate_loop p' (ts @ [abc])"
      using big True v(1) r(1) by (simp add: triangulate_loop.simps[of p ts])
    with res have "triangulate_loop p' (ts @ [abc]) = Inl e" by simp
    with "1.IH"[OF big nn v(1) r(1) refl r(2)] show ?thesis .
  qed
qed

lemma triangulate_loop_valid:
  "poly_inv p \<Longrightarrow> triangulate_loop p ts = Inr ts' \<Longrightarrow>
   \<forall>t \<in> set ts. valid_triangle (length (vertices p)) t \<Longrightarrow>
   \<forall>t \<in> set ts'. valid_triangle (length (vertices p)) t"
proof (induction p ts rule: triangulate_loop.induct)
  case (1 p ts)
  note inv = "1.prems"(1) and res = "1.prems"(2) and old = "1.prems"(3)
  show ?case
  proof (cases "2 < poly_size p")
    case False
    with res have "ts' = ts" by (simp add: triangulate_loop.simps[of p ts])
    with old show ?thesis by simp
  next
    case big: True
    have True: "has_ear p"
      using res big by (auto simp: triangulate_loop.simps[of p ts] split: if_splits)
    then have nn: "\<not> \<not> has_ear p" by simp
    from get_next_ear_Inr[OF True] obtain v where
      v: "get_next_ear p = Inr v" "v \<in> set (ear_list p)" by blast
    from remove_ear_inv[OF inv v(2)] big obtain abc p' where
      r: "remove_vertex p v = Inr (abc, p')" "poly_inv p'"
         "valid_triangle (length (vertices p)) abc" by blast
    have vs: "vertices p' = vertices p" using r(1) by (rule remove_vertex_ring(2))
    have step: "triangulate_loop p ts = triangulate_loop p' (ts @ [abc])"
      using big True v(1) r(1) by (simp add: triangulate_loop.simps[of p ts])
    with res have res': "triangulate_loop p' (ts @ [abc]) = Inr ts'" by simp
    have old': "\<forall>t \<in> set (ts @ [abc]). valid_triangle (length (vertices p')) t"
      using old r(3) by (simp add: vs)
    from "1.IH"[OF big nn v(1) r(1) refl r(2) res' old'] show ?thesis by (simp add: vs)
  qed
qed

lemma triangulate_loop_length:
  "triangulate_loop p ts = Inr ts' \<Longrightarrow> length ts' = length ts + (poly_size p - 2)"
proof (induction p ts rule: triangulate_loop.induct)
  case (1 p ts)
  show ?case
  proof (cases "2 < poly_size p")
    case False
    with "1.prems" show ?thesis by (simp add: triangulate_loop.simps[of p ts])
  next
    case big: True
    with "1.prems" obtain v abc p' where
      h: "has_ear p" and v: "get_next_ear p = Inr v" and r: "remove_vertex p v = Inr (abc, p')"
      and rest: "triangulate_loop p' (ts @ [abc]) = Inr ts'"
      by (auto simp: triangulate_loop.simps[of p ts] split: if_splits sum.splits)
    from "1.IH"[OF big _ v r refl rest] h
    have "length ts' = length (ts @ [abc]) + (poly_size p' - 2)" by simp
    moreover have "Suc (poly_size p') = poly_size p" using r by (rule remove_vertex_size)
    ultimately show ?thesis using big by simp
  qed
qed

lemma driver_reach_loop: "driver_reach vs p ts \<Longrightarrow> triangulate vs = triangulate_loop p ts"
proof (induction rule: driver_reach.induct)
  case (reach_init p)
  then show ?case by (simp add: triangulate_def)
next
  case (reach_step p triangles ear_vertex ear p')
  then show ?case by (simp add: triangulate_loop.simps[of p triangles])
qed

lemma driver_reach_inv: "driver_reach vs p ts \<Longrightarrow> poly_inv p \<and> vertices p = vs"
proof (induction rule: driver_reach.induct)
  case (reach_init p)
  with polygon_init_inv[of vs] show ?case by auto
next
  case (reach_step p triangles ear_vertex ear p')
  from reach_step.hyps(3) reach_step.hyps(4) have "ear_vertex \<in> set (ear_list p)"
    using get_next_ear_Inr by fastforce
  from remove_ear_inv[OF _ this] reach_step.IH reach_step.hyps(5) have "poly_inv p'" by auto
  moreover have "vertices p' = vertices p" using reach_step.hyps(5) by (rule remove_vertex_ring(2))
  ultimately show ?case using reach_step.IH by simp
qed

lemma triangulate_loop_failure:
  "triangulate_loop p ts = Inl NonSimplePolygon \<Longrightarrow> driver_reach vs p ts \<Longrightarrow>
     \<exists>p' ts'. driver_reach vs p' ts' \<and> 2 < poly_size p' \<and> \<not> has_ear p'"
proof (induction p ts rule: triangulate_loop.induct)
  case (1 p ts)
  have big: "2 < poly_size p"
    using "1.prems"(1) by (auto simp: triangulate_loop.simps[of p ts] split: if_splits)
  show ?case
  proof (cases "has_ear p")
    case False
    with big "1.prems"(2) show ?thesis by blast
  next
    case True
    from get_next_ear_Inr[OF True] obtain v where
      v: "get_next_ear p = Inr v" "v \<in> set (ear_list p)" by blast
    from driver_reach_inv[OF "1.prems"(2)] have inv: "poly_inv p" by simp
    from remove_ear_inv[OF inv v(2)] obtain abc p' where
      r: "remove_vertex p v = Inr (abc, p')" by blast
    have step: "triangulate_loop p ts = triangulate_loop p' (ts @ [abc])"
      using big True v(1) r by (simp add: triangulate_loop.simps[of p ts])
    have "driver_reach vs p' (ts @ [abc])"
      using "1.prems"(2) big True v(1) r by (rule reach_step)
    from "1.IH"[OF big _ v(1) r refl _ this] True "1.prems"(1) step show ?thesis by simp
  qed
qed

subsection \<open>Concrete runs\<close>

lemmas eval_defs = build_triangle_at_index_def build_triangle_at_element_def vec_at_def
  make_triangle_real_def set_insert_def set_erase_def build_fake_triangle_at_def
  build_real_triangle_at_def is_convex_def is_reflex_def is_ear_def update_vertex_convexity_def
  update_vertex_earness_def update_vertex_def erase_vertex_def remove_vertex_def has_ear_def
  get_next_ear_def poly_size_def polygon_init_def sign_def point_in_triangle_def det3_def det_def
  geom_is_convex_def geom_is_reflex_def Let_def pnt_def rnd_exact_int rnd_zero

lemmas simple_defs = simple_polygon_def edges_ok_def segments_meet_def on_segment_def cross_def
  next_point_def area2_def rx_def ry_def pnt_def

lemma triangulate_square:
  "triangulate square =
     Inr [\<lparr>triA = 3, triB = 0, triC = 1\<rparr>, \<lparr>triA = 3, triB = 1, triC = 2\<rparr>]"
  by (simp add: triangulate_def triangulate_loop.simps eval_defs square_def upt_rec)

lemma square_simple: "simple_polygon square \<and> 0 < area2 square"
  by (simp add: simple_defs square_def upt_rec)

text \<open>
  The pentagon \<open>dented\<close> is simple and counter-clockwise. Its vertex 0 is removed as an ear;
  the state after that has four ring vertices and no ear.
\<close>

lemma dented_simple: "simple_polygon dented \<and> 0 < area2 dented"
  by (simp add: simple_defs dented_def upt_rec)

lemma dented_reach:
  "driver_reach dented
     \<lparr>vertices = dented, vertex_list = [1, 2, 3, 4], convex_list = [1, 3],
      reflex_list = [2], ear_list = []\<rparr>
     [\<lparr>triA = 4, triB = 0, triC = 1\<rparr>]"
proof -
  let ?p0 = "\<lparr>vertices = dented, vertex_list = [0, 1, 2, 3, 4],
     convex_list = [0, 1, 3], reflex_list = [2], ear_list = [0]\<rparr>"
  have "polygon_init dented = Inr ?p0"
    by (simp add: eval_defs dented_def upt_rec)
  then have "driver_reach dented ?p0 []" by (rule reach_init)
  then have "driver_reach dented
     \<lparr>vertices = dented, vertex_list = [1, 2, 3, 4], convex_list = [1, 3],
      reflex_list = [2], ear_list = []\<rparr>
     ([] @ [\<lparr>triA = 4, triB = 0, triC = 1\<rparr>])"
    by (rule reach_step[where ear_vertex = 0]) (simp_all add: eval_defs dented_def)
  then show ?thesis by simp
qed

subsection \<open>Failure of the driver\<close>

text \<open>
  Claim C5. \<open>triangulate\<close> fails with the non-simple-polygon error exactly when the driver
  loop reaches a state with more than two ring vertices and an empty ear set. No other error
  leaves \<open>triangulate\<close>. A failing call returns the error alone: the triangles collected
  before the failing iteration are not part of the result.
\<close>

theorem triangulate_failure_iff:
  "(triangulate vs = Inl NonSimplePolygon \<longleftrightarrow>
      (\<exists>p ts. driver_reach vs p ts \<and> 2 < poly_size p \<and> \<not> has_ear p)) \<and>
   (\<forall>e. triangulate vs = Inl e \<longrightarrow> e = NonSimplePolygon)"
proof (intro conjI iffI allI impI)
  from polygon_init_inv[of vs] obtain p0 where
    p0: "polygon_init vs = Inr p0" "poly_inv p0" by blast
  have r0: "driver_reach vs p0 []" using p0(1) by (rule reach_init)
  have t0: "triangulate vs = triangulate_loop p0 []" using r0 by (rule driver_reach_loop)
  {
    assume "triangulate vs = Inl NonSimplePolygon"
    with t0 have "triangulate_loop p0 [] = Inl NonSimplePolygon" by simp
    from triangulate_loop_failure[OF this r0]
    show "\<exists>p ts. driver_reach vs p ts \<and> 2 < poly_size p \<and> \<not> has_ear p" .
  }
  {
    fix e assume "triangulate vs = Inl e"
    with t0 have "triangulate_loop p0 [] = Inl e" by simp
    with p0(2) show "e = NonSimplePolygon" by (rule triangulate_loop_errors)
  }
  {
    assume "\<exists>p ts. driver_reach vs p ts \<and> 2 < poly_size p \<and> \<not> has_ear p"
    then obtain p ts where r: "driver_reach vs p ts" and b: "2 < poly_size p" "\<not> has_ear p"
      by blast
    from driver_reach_loop[OF r] b show "triangulate vs = Inl NonSimplePolygon"
      by (simp add: triangulate_loop.simps[of p ts])
  }
qed

theorem triangulate_failure_iff_witness:
  "driver_reach dented
     \<lparr>vertices = dented, vertex_list = [1, 2, 3, 4], convex_list = [1, 3],
      reflex_list = [2], ear_list = []\<rparr>
     [\<lparr>triA = 4, triB = 0, triC = 1\<rparr>] \<and>
   2 < poly_size \<lparr>vertices = dented, vertex_list = [1, 2, 3, 4], convex_list = [1, 3],
                  reflex_list = [2], ear_list = []\<rparr> \<and>
   \<not> has_ear \<lparr>vertices = dented, vertex_list = [1, 2, 3, 4], convex_list = [1, 3],
              reflex_list = [2], ear_list = []\<rparr> \<and>
   triangulate dented = Inl NonSimplePolygon"
proof -
  let ?p = "\<lparr>vertices = dented, vertex_list = [1, 2, 3, 4], convex_list = [1, 3],
             reflex_list = [2], ear_list = []\<rparr>"
  have s: "2 < poly_size ?p" "\<not> has_ear ?p" by (simp_all add: poly_size_def has_ear_def)
  with dented_reach have "\<exists>p ts. driver_reach dented p ts \<and> 2 < poly_size p \<and> \<not> has_ear p"
    by blast
  with triangulate_failure_iff[of dented] have "triangulate dented = Inl NonSimplePolygon"
    by blast
  with dented_reach s show ?thesis by blast
qed

subsection \<open>The triangles of a successful run\<close>

text \<open>
  Claim C6. Every triangle in the result of a successful \<open>triangulate\<close> names three
  pairwise different indices, each an index of the input point sequence.
\<close>

theorem triangulate_valid_triangles:
  assumes "triangulate vs = Inr ts" and "t \<in> set ts"
  shows "triA t \<noteq> triB t \<and> triB t \<noteq> triC t \<and> triA t \<noteq> triC t \<and>
         triA t < length vs \<and> triB t < length vs \<and> triC t < length vs"
proof -
  from polygon_init_inv[of vs] obtain p0 where
    p0: "polygon_init vs = Inr p0" "vertices p0 = vs" "poly_inv p0" by blast
  from assms(1) p0(1) have "triangulate_loop p0 [] = Inr ts" by (simp add: triangulate_def)
  from triangulate_loop_valid[OF p0(3) this] assms(2) p0(2)
  have "valid_triangle (length vs) t" by simp
  then show ?thesis by (simp add: valid_triangle_def)
qed

theorem triangulate_valid_triangles_witness:
  "triangulate square =
     Inr [\<lparr>triA = 3, triB = 0, triC = 1\<rparr>, \<lparr>triA = 3, triB = 1, triC = 2\<rparr>] \<and>
   \<lparr>triA = 3, triB = 1, triC = 2\<rparr>
     \<in> set [\<lparr>triA = 3, triB = 0, triC = 1\<rparr>, \<lparr>triA = 3, triB = 1, triC = (2::nat)\<rparr>] \<and>
   triA \<lparr>triA = 3, triB = 1, triC = 2::nat\<rparr> \<noteq> triB \<lparr>triA = 3, triB = 1, triC = 2::nat\<rparr> \<and>
   triC \<lparr>triA = 3, triB = 1, triC = 2::nat\<rparr> < length square"
proof -
  have m: "\<lparr>triA = 3, triB = 1, triC = 2\<rparr>
     \<in> set [\<lparr>triA = 3, triB = 0, triC = 1\<rparr>, \<lparr>triA = 3, triB = 1, triC = (2::nat)\<rparr>]" by simp
  from triangulate_valid_triangles[OF triangulate_square m] triangulate_square m
  show ?thesis by blast
qed

subsection \<open>The number of triangles\<close>

text \<open>
  A run that returns has removed one vertex per triangle: the result has \<open>n - 2\<close> triangles
  for \<open>n \<ge> 3\<close> input points (and none for fewer).
\<close>

lemma triangulate_count:
  assumes "triangulate vs = Inr ts"
  shows "length ts = length vs - 2"
proof -
  from polygon_init_inv[of vs] obtain p0 where
    p0: "polygon_init vs = Inr p0" "vertex_list p0 = [0..<length vs]" by blast
  from assms p0(1) have "triangulate_loop p0 [] = Inr ts" by (simp add: triangulate_def)
  from triangulate_loop_length[OF this] p0(2) show ?thesis by (simp add: poly_size_def)
qed

text \<open>
  Claim C3. The source does not return on every simple polygon: \<open>dart\<close> is a simple,
  counter-clockwise quadrilateral with one reflex vertex, and \<open>triangulate\<close> fails on it
  with the non-simple-polygon error. Its two ears, vertices 1 and 3, are both rejected:
  vertex 3 is the last ring element, whose triangle the index lookup builds degenerate, and
  the scan of \<open>is_ear\<close> counts the reflex corner 2 of the triangle at vertex 1 as contained
  in it.
\<close>

theorem triangulate_dart_fails:
  "simple_polygon dart \<and> 0 < area2 dart \<and> 3 \<le> length dart \<and>
   triangulate dart = Inl NonSimplePolygon"
  by (simp add: simple_defs triangulate_def triangulate_loop.simps eval_defs dart_def upt_rec)

subsection \<open>Fewer than three points\<close>

text \<open>
  Claim C4, as stated, fails: on the empty input \<open>triangulate\<close> returns the empty list and
  raises no error.
\<close>

theorem triangulate_empty_counterexample:
  "length ([] :: vec2 list) < 3 \<and> triangulate [] = Inr [] \<and> triangulate [] \<noteq> Inl OutOfRange"
  by (simp add: triangulate_def triangulate_loop.simps eval_defs)

text \<open>
  Claim C4, amended. For every input with fewer than three points \<open>triangulate\<close> returns
  normally, with the empty list of triangles; no error is raised.
\<close>

theorem triangulate_few_points:
  assumes "length vs < 3"
  shows "triangulate vs = Inr []"
proof -
  from polygon_init_inv[of vs] obtain p0 where
    p0: "polygon_init vs = Inr p0" "vertex_list p0 = [0..<length vs]" by blast
  have "\<not> 2 < poly_size p0" using assms p0(2) by (simp add: poly_size_def)
  then have "triangulate_loop p0 [] = Inr []" by (simp add: triangulate_loop.simps[of p0 "[]"])
  with p0(1) show ?thesis by (simp add: triangulate_def)
qed

theorem triangulate_few_points_witness:
  "length [pnt 0 0, pnt 1 0] < 3 \<and>
   triangulate [pnt 0 0, pnt 1 0] = Inr []"
proof -
  have l: "length [pnt 0 0, pnt 1 0] < 3" by simp
  from triangulate_few_points[OF l] l show ?thesis by blast
qed

section \<open>Removing a vertex: what changes and what does not\<close>

lemma no_reflex_inside_iff:
  "no_reflex_inside vs abc rs \<longleftrightarrow> (\<forall>r \<in> set rs. \<not> point_in_triangle abc (vs ! r))"
  by (induction rs) auto

text \<open>
  A corner of a triangle passes the containment test of the source, in binary64 as in exact
  arithmetic: the two half-plane values of the edges at the corner are zero or NaN.
\<close>

lemma sign_same: "zero_or_nan (sign p p q)" "zero_or_nan (sign p q p)"
  by (simp_all add: sign_def zero_or_nan_dsub zero_or_nan_dmul_left zero_or_nan_dmul_right
      zero_or_nan_dsub_self)

lemma point_in_triangle_corner:
  "point_in_triangle abc (triA abc)" "point_in_triangle abc (triB abc)"
  "point_in_triangle abc (triC abc)"
  using zero_or_nan_dless[OF sign_same(1)] zero_or_nan_dless[OF sign_same(2)]
  by (auto simp: point_in_triangle_iff dest: dless_asym)

lemma nth_remove1_distinct:
  "distinct xs \<Longrightarrow> i < length xs \<Longrightarrow> k < length xs - 1 \<Longrightarrow>
     remove1 (xs ! i) xs ! k = (if k < i then xs ! k else xs ! Suc k)"
proof (induction xs arbitrary: i k)
  case Nil
  then show ?case by simp
next
  case (Cons a xs)
  show ?case
  proof (cases i)
    case 0
    then show ?thesis by simp
  next
    case (Suc i')
    with Cons.prems have ne: "xs ! i' \<noteq> a" by auto
    show ?thesis
    proof (cases k)
      case 0
      with Suc ne show ?thesis by simp
    next
      case k: (Suc k')
      with Cons.prems Suc have "remove1 (xs ! i') xs ! k' = (if k' < i' then xs ! k' else xs ! Suc k')"
        by (intro Cons.IH) auto
      with Suc k ne show ?thesis by simp
    qed
  qed
qed

lemma build_triangle_at_element_frame:
  assumes d: "distinct ring" and i: "i < length ring - 1"
    and j: "j < length ring" "j \<noteq> i" "j \<noteq> Suc i" "j \<noteq> (if 0 < i then i - 1 else length ring - 1)"
  shows "build_triangle_at_element (remove1 (ring ! i) ring) (ring ! j) =
         build_triangle_at_element ring (ring ! j)"
proof -
  let ?r = "remove1 (ring ! i) ring"
  let ?m = "length ring"
  have il: "i < ?m" using i by simp
  have len: "length ?r = ?m - 1" using il by (simp add: length_remove1)
  have d': "distinct ?r" using d by simp
  have lo: "?r ! k = ring ! k" if "k < i" for k
    using nth_remove1_distinct[OF d il, of k] that i by simp
  have hi: "?r ! k = ring ! Suc k" if "i \<le> k" "k < ?m - 1" for k
    using nth_remove1_distinct[OF d il, of k] that by simp
  have lst: "?r ! (length ?r - 1) = ring ! (?m - 1)"
  proof -
    have "i \<le> ?m - 1 - 1" "?m - 1 - 1 < ?m - 1" using i by simp_all
    from hi[OF this] have "?r ! (?m - 1 - 1) = ring ! Suc (?m - 1 - 1)" .
    moreover have "Suc (?m - 1 - 1) = ?m - 1" using i by simp
    ultimately show ?thesis by (simp add: len)
  qed
  have old: "build_triangle_at_element ring (ring ! j) = build_triangle_at_index ring j"
    using d j(1) by (rule build_triangle_at_element_pos)
  show ?thesis
  proof (cases "j < i")
    case True
    with j have j1: "Suc j < i" by (auto split: if_splits)
    have jr: "j < length ?r" using True i len by simp
    have wj: "?r ! j = ring ! j" using True by (rule lo)
    have new: "build_triangle_at_element ?r (?r ! j) = build_triangle_at_index ?r j"
      using d' jr by (rule build_triangle_at_element_pos)
    have a: "?r ! (if 0 < j then j - 1 else length ?r - 1) = ring ! (if 0 < j then j - 1 else ?m - 1)"
    proof (cases "0 < j")
      case True
      have "j - 1 < i" using j1 by simp
      from lo[OF this] True show ?thesis by simp
    next
      case False
      with lst show ?thesis by simp
    qed
    have jm: "j < length ?r - 1" "j < ?m - 1" using j1 i len by simp_all
    have c: "?r ! (if j < length ?r - 1 then j + 1 else length ?r - 1) =
             ring ! (if j < ?m - 1 then j + 1 else ?m - 1)"
      using lo[OF j1] jm by simp
    have "build_triangle_at_index ?r j = build_triangle_at_index ring j"
      unfolding build_triangle_at_index_def using a c jr j(1) wj by simp
    with old new wj show ?thesis by simp
  next
    case False
    with j have j2: "Suc (Suc i) \<le> j" by simp
    define j' where "j' = j - 1"
    have sj: "Suc j' = j" "0 < j'" "i \<le> j'" "j' < ?m - 1" "i \<le> j' - 1" "j' - 1 < ?m - 1"
      "Suc (j' - 1) = j - 1" "0 < j"
      using j2 j(1) by (simp_all add: j'_def)
    have jr: "j' < length ?r" using sj len by simp
    have wj: "?r ! j' = ring ! j" using hi[OF sj(3,4)] sj(1) by simp
    have new: "build_triangle_at_element ?r (?r ! j') = build_triangle_at_index ?r j'"
      using d' jr by (rule build_triangle_at_element_pos)
    have a: "?r ! (if 0 < j' then j' - 1 else length ?r - 1) = ring ! (if 0 < j then j - 1 else ?m - 1)"
      using hi[OF sj(5,6)] sj(2,7,8) by simp
    have c: "?r ! (if j' < length ?r - 1 then j' + 1 else length ?r - 1) =
             ring ! (if j < ?m - 1 then j + 1 else ?m - 1)"
    proof (cases "j < ?m - 1")
      case True
      then have "i \<le> Suc j'" "Suc j' < ?m - 1" "j' < length ?r - 1" using sj len by simp_all
      from hi[OF this(1,2)] this(3) True sj(1) show ?thesis by simp
    next
      case False
      then have "\<not> j' < length ?r - 1" using sj(1) len by simp
      with False lst show ?thesis by simp
    qed
    have "build_triangle_at_index ?r j' = build_triangle_at_index ring j"
      unfolding build_triangle_at_index_def using a c jr j(1) wj by simp
    with old new wj show ?thesis by simp
  qed
qed

lemma update_vertex_members:
  assumes "update_vertex p a = Inr p'" "w \<noteq> a"
  shows "(w \<in> set (convex_list p') \<longleftrightarrow> w \<in> set (convex_list p)) \<and>
         (w \<in> set (reflex_list p') \<longleftrightarrow> w \<in> set (reflex_list p)) \<and>
         (w \<in> set (ear_list p') \<longleftrightarrow> w \<in> set (ear_list p))"
  using assms
  by (auto simp: update_vertex_def update_vertex_convexity_def update_vertex_earness_def
      set_set_insert set_set_erase split: sum.splits if_splits prod.splits)

lemma erase_vertex_members:
  assumes "w \<noteq> v"
  shows "(w \<in> set (convex_list (erase_vertex p v)) \<longleftrightarrow> w \<in> set (convex_list p)) \<and>
         (w \<in> set (reflex_list (erase_vertex p v)) \<longleftrightarrow> w \<in> set (reflex_list p)) \<and>
         (w \<in> set (ear_list (erase_vertex p v)) \<longleftrightarrow> w \<in> set (ear_list p))"
  using assms by (simp add: erase_vertex_def set_set_erase)

lemma find_pos_last_remove1:
  "find_pos xs e = Some (length xs - 1) \<Longrightarrow> e \<notin> set (remove1 e xs)"
proof (induction xs)
  case Nil
  then show ?case by simp
next
  case (Cons a xs)
  show ?case
  proof (cases "a = e")
    case True
    with Cons.prems have "xs = []" by simp
    with True show ?thesis by simp
  next
    case False
    with Cons.prems obtain k where k: "find_pos xs e = Some k" "Suc k = length xs" by auto
    then have "find_pos xs e = Some (length xs - 1)" by auto
    from Cons.IH[OF this] False show ?thesis by simp
  qed
qed

lemma update_vertex_needs_vertex:
  assumes "update_vertex q v = Inr q'"
  shows "v \<in> set (convex_list q) \<or> v \<in> set (vertex_list q)"
proof (rule ccontr)
  assume n: "\<not> ?thesis"
  then have "find_pos (vertex_list q) v = None" by (simp add: find_pos_None)
  then have "build_real_triangle_at q v = Inl NotFound"
    by (simp add: build_real_triangle_at_def build_fake_triangle_at_def build_triangle_at_element_def)
  with n have "update_vertex q v = Inl NotFound"
    by (simp add: update_vertex_def update_vertex_convexity_def is_convex_def)
  with assms show False by simp
qed

lemma remove_vertex_steps:
  assumes "remove_vertex p v = Inr (abc, p')"
  shows "\<exists>p1. build_fake_triangle_at p v = Inr abc \<and>
           update_vertex (erase_vertex p v) (triA abc) = Inr p1 \<and>
           update_vertex p1 (triC abc) = Inr p'"
  using assms by (auto simp: remove_vertex_def split: sum.splits)

lemma remove_vertex_not_last:
  assumes "remove_vertex p v = Inr (abc, p')"
  shows "\<exists>i. find_pos (vertex_list p) v = Some i \<and> i < length (vertex_list p) - 1"
proof -
  from remove_vertex_steps[OF assms] obtain p1 where
    t: "build_fake_triangle_at p v = Inr abc" and
    u1: "update_vertex (erase_vertex p v) (triA abc) = Inr p1" and
    u2: "update_vertex p1 (triC abc) = Inr p'" by blast
  from t obtain i where i: "find_pos (vertex_list p) v = Some i"
    and b: "build_triangle_at_index (vertex_list p) i = Inr abc"
    by (auto simp: build_fake_triangle_at_def build_triangle_at_element_def split: option.splits)
  from find_pos_Some[OF i] have il: "i < length (vertex_list p)" "vertex_list p ! i = v" by simp_all
  have "i \<noteq> length (vertex_list p) - 1"
  proof
    assume e: "i = length (vertex_list p) - 1"
    with b il have c: "triC abc = v" by (auto simp: build_triangle_at_index_def)
    from i e have nv: "v \<notin> set (remove1 v (vertex_list p))"
      by (intro find_pos_last_remove1) simp
    have r1: "vertex_list p1 = remove1 v (vertex_list p)"
      using update_vertex_frame[OF u1] by (simp add: erase_vertex_def)
    have c0: "v \<notin> set (convex_list (erase_vertex p v))"
      by (simp add: erase_vertex_def set_set_erase)
    have "v \<notin> set (convex_list p1)"
    proof (cases "triA abc = v")
      case True
      with u1 have "update_vertex (erase_vertex p v) v = Inr p1" by simp
      from update_vertex_needs_vertex[OF this] c0 nv show ?thesis
        by (simp add: erase_vertex_def)
    next
      case False
      then have "v \<noteq> triA abc" by simp
      from update_vertex_members[OF u1 this] c0 show ?thesis by simp
    qed
    moreover from u2 c have "update_vertex p1 v = Inr p'" by simp
    from update_vertex_needs_vertex[OF this] have "v \<in> set (convex_list p1) \<or> v \<in> set (vertex_list p1)" .
    ultimately show False using nv r1 by simp
  qed
  with il(1) i show ?thesis by auto
qed


text \<open>A call on the vertex at the last ring position throws.\<close>

lemma remove_vertex_last_throws:
  assumes "find_pos (vertex_list p) v = Some (length (vertex_list p) - 1)"
  shows "\<exists>e. remove_vertex p v = Inl e"
proof (cases "remove_vertex p v")
  case (Inl e)
  then show ?thesis by blast
next
  case (Inr x)
  then obtain abc p' where "remove_vertex p v = Inr (abc, p')" by (cases x) simp
  from remove_vertex_not_last[OF this] assms show ?thesis by simp
qed

text \<open>
  A call of \<open>remove_vertex\<close> that returns found the vertex at a ring position that is not
  the last; the harvested triangle is the cyclic one; the two vertices re-evaluated by
  \<open>update_vertex\<close> are its first and last corner, in this order; and every vertex other than
  the removed one and these two is in each of the three classification sets after the call
  exactly if it was before.
\<close>

lemma remove_vertex_returning_frame:
  assumes "remove_vertex p v = Inr (abc, p')"
  shows "\<exists>i. find_pos (vertex_list p) v = Some i \<and>
           abc = ring_triangle (vertex_list p) i \<and>
           (\<exists>p1. update_vertex (erase_vertex p v) (triA abc) = Inr p1 \<and>
                 update_vertex p1 (triC abc) = Inr p') \<and>
           (\<forall>w. w \<noteq> v \<and> w \<noteq> triA abc \<and> w \<noteq> triC abc \<longrightarrow>
                (w \<in> set (convex_list p') \<longleftrightarrow> w \<in> set (convex_list p)) \<and>
                (w \<in> set (reflex_list p') \<longleftrightarrow> w \<in> set (reflex_list p)) \<and>
                (w \<in> set (ear_list p') \<longleftrightarrow> w \<in> set (ear_list p)))"
proof -
  from remove_vertex_steps[OF assms] obtain p1 where
    t: "build_fake_triangle_at p v = Inr abc" and
    u1: "update_vertex (erase_vertex p v) (triA abc) = Inr p1" and
    u2: "update_vertex p1 (triC abc) = Inr p'" by blast
  from remove_vertex_not_last[OF assms] obtain i where
    i: "find_pos (vertex_list p) v = Some i" "i < length (vertex_list p) - 1" by blast
  then have "build_triangle_at_index (vertex_list p) i = Inr (ring_triangle (vertex_list p) i)"
    by (intro build_triangle_at_index_inner) auto
  with t i(1) have abc: "abc = ring_triangle (vertex_list p) i"
    by (simp add: build_fake_triangle_at_def build_triangle_at_element_def)
  have fr: "(w \<in> set (convex_list p') \<longleftrightarrow> w \<in> set (convex_list p)) \<and>
            (w \<in> set (reflex_list p') \<longleftrightarrow> w \<in> set (reflex_list p)) \<and>
            (w \<in> set (ear_list p') \<longleftrightarrow> w \<in> set (ear_list p))"
    if "w \<noteq> v" "w \<noteq> triA abc" "w \<noteq> triC abc" for w
    using erase_vertex_members[OF that(1), of p] update_vertex_members[OF u1 that(2)]
      update_vertex_members[OF u2 that(3)] by simp
  from i(1) abc u1 u2 fr show ?thesis by blast
qed

text \<open>
  Claim C7. When the removed vertex is the last ring element, the source does not re-evaluate
  its two former ring neighbours. On the square, vertex 3 is in the ring with the cyclic
  triple \<open>(2, 3, 0)\<close>; the lookup gives \<open>(2, 3, 3)\<close>, so \<open>remove_vertex\<close> updates vertex 2,
  then calls \<open>update_vertex\<close> on the removed vertex 3 itself, which throws. The former
  successor 0 is never re-evaluated.
\<close>

theorem remove_vertex_last_square:
  "polygon_init square =
     Inr \<lparr>vertices = square, vertex_list = [0, 1, 2, 3], convex_list = [0, 1, 2],
          reflex_list = [], ear_list = [0, 1, 2]\<rparr> \<and>
   ring_triangle [0, 1, 2, 3::nat] 3 = \<lparr>triA = 2, triB = 3, triC = 0\<rparr> \<and>
   build_fake_triangle_at
     \<lparr>vertices = square, vertex_list = [0, 1, 2, 3], convex_list = [0, 1, 2],
      reflex_list = [], ear_list = [0, 1, 2]\<rparr> 3 = Inr \<lparr>triA = 2, triB = 3, triC = 3\<rparr> \<and>
   update_vertex
     (erase_vertex \<lparr>vertices = square, vertex_list = [0, 1, 2, 3], convex_list = [0, 1, 2],
                    reflex_list = [], ear_list = [0, 1, 2]\<rparr> 3) 2 =
     Inr \<lparr>vertices = square, vertex_list = [0, 1, 2], convex_list = [0, 1, 2],
          reflex_list = [], ear_list = [0, 1, 2]\<rparr> \<and>
   update_vertex
     \<lparr>vertices = square, vertex_list = [0, 1, 2], convex_list = [0, 1, 2],
      reflex_list = [], ear_list = [0, 1, 2]\<rparr> 3 = Inl NotFound \<and>
   remove_vertex
     \<lparr>vertices = square, vertex_list = [0, 1, 2, 3], convex_list = [0, 1, 2],
      reflex_list = [], ear_list = [0, 1, 2]\<rparr> 3 = Inl NotFound"
  by (simp add: eval_defs ring_triangle_def square_def upt_rec)

section \<open>Exactness of the cached classification\<close>

lemma fresh_ear_iff:
  "build_real_triangle_at p v = Inr abc \<Longrightarrow>
     fresh_ear p v \<longleftrightarrow> (\<forall>r \<in> set (reflex_list p). \<not> point_in_triangle abc (vertices p ! r))"
  by (simp add: fresh_ear_def is_ear_def no_reflex_inside_iff)

lemma ear_corners_not_reflex:
  assumes bound: "\<forall>w \<in> set (vertex_list p). w < length (vertices p)"
    and v: "v \<in> set (vertex_list p)" and e: "fresh_ear p v"
    and t: "build_fake_triangle_at p v = Inr abc"
  shows "triA abc \<notin> set (reflex_list p)" "triC abc \<notin> set (reflex_list p)"
proof -
  from build_real_triangle_at_total[OF v bound] t
  have rt: "build_real_triangle_at p v =
      Inr \<lparr>triA = vertices p ! triA abc, triB = vertices p ! triB abc,
           triC = vertices p ! triC abc\<rparr>" by auto
  let ?T = "\<lparr>triA = vertices p ! triA abc, triB = vertices p ! triB abc,
           triC = vertices p ! triC abc\<rparr>"
  from e fresh_ear_iff[OF rt]
  have n: "\<forall>r \<in> set (reflex_list p). \<not> point_in_triangle ?T (vertices p ! r)" by simp
  have "point_in_triangle ?T (vertices p ! triA abc)"
    using point_in_triangle_corner(1)[of ?T] by simp
  with n show "triA abc \<notin> set (reflex_list p)" by blast
  have "point_in_triangle ?T (vertices p ! triC abc)"
    using point_in_triangle_corner(3)[of ?T] by simp
  with n show "triC abc \<notin> set (reflex_list p)" by blast
qed

lemma set_erase_absent: "k \<notin> set xs \<Longrightarrow> set_erase k xs = xs"
  by (simp add: set_erase_def)

lemma update_vertex_exact:
  assumes inv: "poly_inv p" and a: "a \<in> set (vertex_list p)"
    and nr: "a \<notin> set (reflex_list p)" and u: "update_vertex p a = Inr p'"
  shows "reflex_list p' = reflex_list p"
    and "a \<in> set (ear_list p') \<longleftrightarrow> a \<in> set (convex_list p') \<and> fresh_ear p' a"
proof -
  from inv have bound: "\<forall>w \<in> set (vertex_list p). w < length (vertices p)"
    and sub: "set (ear_list p) \<subseteq> set (convex_list p)" by (simp_all add: poly_inv_def)
  from build_real_triangle_at_total[OF a bound] obtain abc where
    t: "build_real_triangle_at p a = Inr abc" by blast
  have "reflex_list p' = reflex_list p \<and>
        (a \<in> set (ear_list p') \<longleftrightarrow> a \<in> set (convex_list p') \<and> fresh_ear p' a)"
  proof (cases "a \<in> set (convex_list p) \<or> geom_is_convex abc")
    case False
    then have "update_vertex p a = Inr p"
      by (simp add: update_vertex_def update_vertex_convexity_def is_convex_def t)
    with u have "p' = p" by simp
    with False sub show ?thesis by auto
  next
    case True
    define p1 where "p1 = p\<lparr>convex_list := set_insert a (convex_list p),
                             reflex_list := set_erase a (reflex_list p)\<rparr>"
    from True have c: "update_vertex_convexity p a = Inr (True, p1)"
      by (auto simp: update_vertex_convexity_def is_convex_def t p1_def)
    have same1: "vertices p1 = vertices p" "vertex_list p1 = vertex_list p"
      "reflex_list p1 = reflex_list p" "ear_list p1 = ear_list p"
      "convex_list p1 = set_insert a (convex_list p)"
      using nr by (simp_all add: p1_def set_erase_absent)
    have t1: "build_real_triangle_at p1 a = Inr abc"
      using t build_real_triangle_at_cong[OF same1(1,2)] by simp
    define b where "b = no_reflex_inside (vertices p1) abc (reflex_list p1)"
    define p2 where "p2 = (if b then p1\<lparr>ear_list := set_insert a (ear_list p1)\<rparr>
                           else p1\<lparr>ear_list := set_erase a (ear_list p1)\<rparr>)"
    have ie: "is_ear p1 a False = Inr b" by (simp add: is_ear_def t1 b_def)
    have e: "update_vertex_earness p1 a = Inr (b, p2)"
      by (simp add: update_vertex_earness_def ie p2_def)
    have "update_vertex p a = Inr p2" by (simp add: update_vertex_def c e)
    with u have p': "p' = p2" by simp
    have same2: "vertices p2 = vertices p1" "vertex_list p2 = vertex_list p1"
      "reflex_list p2 = reflex_list p1" "convex_list p2 = convex_list p1"
      by (simp_all add: p2_def)
    have "is_ear p2 a False = is_ear p1 a False"
      using same2(1,2,3) by (rule is_ear_cong)
    then have fe: "fresh_ear p2 a \<longleftrightarrow> b" by (simp add: fresh_ear_def ie)
    have "a \<in> set (ear_list p2) \<longleftrightarrow> b"
      by (simp add: p2_def set_set_insert set_set_erase)
    moreover have "a \<in> set (convex_list p2)" by (simp add: same2 same1 set_set_insert)
    ultimately show ?thesis using fe same2(3) same1(3) by (simp add: p')
  qed
  then show "reflex_list p' = reflex_list p"
    and "a \<in> set (ear_list p') \<longleftrightarrow> a \<in> set (convex_list p') \<and> fresh_ear p' a" by simp_all
qed

lemma build_real_triangle_at_frame:
  assumes d: "distinct (vertex_list p)" and v: "v \<in> set (vertex_list p)" "v \<noteq> last (vertex_list p)"
    and t: "build_fake_triangle_at p v = Inr abc"
    and w: "w \<in> set (vertex_list p)" "w \<noteq> v" "w \<noteq> triA abc" "w \<noteq> triC abc"
    and p': "vertex_list p' = remove1 v (vertex_list p)" "vertices p' = vertices p"
  shows "build_real_triangle_at p' w = build_real_triangle_at p w"
proof -
  let ?ring = "vertex_list p"
  from build_triangle_at_element_inner[OF d v] t obtain i where
    i: "i < length ?ring - 1" "?ring ! i = v" and
    abc: "abc = \<lparr>triA = ?ring ! (if 0 < i then i - 1 else length ?ring - 1), triB = v,
               triC = ?ring ! (Suc i)\<rparr>"
    by (auto simp: build_fake_triangle_at_def)
  from w(1) obtain j where j: "j < length ?ring" "?ring ! j = w" by (auto simp: in_set_conv_nth)
  have ne: "j \<noteq> i" "j \<noteq> Suc i" "j \<noteq> (if 0 < i then i - 1 else length ?ring - 1)"
    using w(2,3,4) i(2) j(2) abc by auto
  from build_triangle_at_element_frame[OF d i(1) j(1) ne]
  have "build_triangle_at_element (remove1 v ?ring) w = build_triangle_at_element ?ring w"
    by (simp add: i(2) j(2))
  then show ?thesis
    by (simp add: build_real_triangle_at_def build_fake_triangle_at_def p' cong: sum.case_cong)
qed


lemma remove_ear_exact:
  assumes inv: "poly_inv p" and ex: "ears_exact p" and v: "v \<in> set (ear_list p)"
    and r: "remove_vertex p v = Inr (abc, p')"
  shows "ears_exact p'" and "reflex_list p' = reflex_list p"
    and "reflex_exact p \<Longrightarrow> reflex_exact p'"
proof -
  let ?ring = "vertex_list p"
  from inv have d: "distinct ?ring"
    and bound: "\<forall>w \<in> set ?ring. w < length (vertices p)"
    and disj: "set (convex_list p) \<inter> set (reflex_list p) = {}"
    and rsub: "set (reflex_list p) \<subseteq> set ?ring"
    by (simp_all add: poly_inv_def)
  from inv v have vc: "v \<in> set (convex_list p)" and vr: "v \<in> set ?ring"
    by (auto simp: poly_inv_def)
  then have nl: "v \<noteq> last ?ring" using inv by (auto simp: poly_inv_def)
  from vc disj have vnr: "v \<notin> set (reflex_list p)" by auto
  from ex vr v have fe: "fresh_ear p v" by (simp add: ears_exact_def)
  from remove_vertex_steps[OF r] obtain p1 where
    t: "build_fake_triangle_at p v = Inr abc" and
    u1: "update_vertex (erase_vertex p v) (triA abc) = Inr p1" and
    u2: "update_vertex p1 (triC abc) = Inr p'" by blast
  let ?p0 = "erase_vertex p v"
  let ?A = "triA abc" and ?C = "triC abc"
  from remove_vertex_inv[OF inv vr nl] r
  have a_in: "?A \<in> set ?ring" "?A \<noteq> v" and c_in: "?C \<in> set ?ring" "?C \<noteq> v" by auto
  note cn = ear_corners_not_reflex[OF bound vr fe t]
  have inv0: "poly_inv ?p0" by (rule erase_vertex_inv[OF inv vr nl])
  have ring0: "vertex_list ?p0 = remove1 v ?ring" "vertices ?p0 = vertices p"
    and rf0: "reflex_list ?p0 = reflex_list p"
    using vnr by (simp_all add: erase_vertex_def set_erase_absent)
  have s0: "set (vertex_list ?p0) = set ?ring - {v}" using d by (simp add: ring0)
  have a0: "?A \<in> set (vertex_list ?p0)" using a_in s0 by simp
  have anr: "?A \<notin> set (reflex_list ?p0)" using cn(1) rf0 by simp
  from update_vertex_inv[OF inv0 a0] u1 have inv1: "poly_inv p1" by auto
  note x1 = update_vertex_exact[OF inv0 a0 anr u1]
  have ring1: "vertex_list p1 = remove1 v ?ring" "vertices p1 = vertices p"
    using update_vertex_frame[OF u1] ring0 by simp_all
  have rf1: "reflex_list p1 = reflex_list p" using x1(1) rf0 by simp
  have c1: "?C \<in> set (vertex_list p1)" using c_in s0 ring0 ring1 by simp
  have cnr: "?C \<notin> set (reflex_list p1)" using cn(2) rf1 by simp
  note x2 = update_vertex_exact[OF inv1 c1 cnr u2]
  have ring2: "vertex_list p' = remove1 v ?ring" "vertices p' = vertices p"
    using update_vertex_frame[OF u2] ring1 by simp_all
  show rf2: "reflex_list p' = reflex_list p" using x2(1) rf1 by simp
  have far: "build_real_triangle_at p' w = build_real_triangle_at p w"
    if "w \<in> set ?ring" "w \<noteq> v" "w \<noteq> ?A" "w \<noteq> ?C" for w
    using build_real_triangle_at_frame[OF d vr nl t that ring2] .
  show "ears_exact p'"
    unfolding ears_exact_def
  proof
    fix w assume "w \<in> set (vertex_list p')"
    then have w: "w \<in> set ?ring" "w \<noteq> v" using s0 ring0 ring2 by simp_all
    show "(w \<in> set (ear_list p')) = (w \<in> set (convex_list p') \<and> fresh_ear p' w)"
    proof (cases "w = ?C")
      case True
      with x2(2) show ?thesis by simp
    next
      case nc: False
      note m2 = update_vertex_members[OF u2 nc]
      show ?thesis
      proof (cases "w = ?A")
        case True
        have "fresh_ear p' ?A = fresh_ear p1 ?A"
          using ring1 ring2 rf1 rf2 by (intro fresh_ear_cong) simp_all
        with x1(2) m2 True show ?thesis by simp
      next
        case na: False
        note m1 = update_vertex_members[OF u1 na]
        note m0 = erase_vertex_members[OF w(2), of p]
        have "is_ear p' w False = is_ear p w False"
          using far[OF w na nc] rf2 ring2
          by (simp add: is_ear_def cong: sum.case_cong)
        then have "fresh_ear p' w = fresh_ear p w" by (simp add: fresh_ear_def)
        moreover from ex w(1)
        have "(w \<in> set (ear_list p)) = (w \<in> set (convex_list p) \<and> fresh_ear p w)"
          by (simp add: ears_exact_def)
        ultimately show ?thesis using m0 m1 m2 by simp
      qed
    qed
  qed
  show "reflex_exact p'" if re: "reflex_exact p"
    unfolding reflex_exact_def
  proof
    fix w assume "w \<in> set (reflex_list p')"
    then have wr: "w \<in> set (reflex_list p)" using rf2 by simp
    with rsub have w: "w \<in> set ?ring" by auto
    from wr vnr cn have ne: "w \<noteq> v" "w \<noteq> ?A" "w \<noteq> ?C" by auto
    from far[OF w ne] have "fresh_reflex p' w = fresh_reflex p w"
      by (simp add: fresh_reflex_def)
    with re wr show "fresh_reflex p' w" by (simp add: reflex_exact_def)
  qed
qed

lemma polygon_init_exact:
  "polygon_init vs = Inr p \<Longrightarrow> ears_exact p \<and> reflex_exact p"
proof -
  assume i: "polygon_init vs = Inr p"
  from polygon_init_spec[of vs] i have
    s: "set (reflex_list p) = {v. v < length vs \<and> fresh_reflex p v}"
       "set (ear_list p) = {v \<in> set (convex_list p). fresh_ear p v}" by auto
  show ?thesis unfolding ears_exact_def reflex_exact_def s by simp
qed

lemma driver_reach_exact: "driver_reach vs p ts \<Longrightarrow> ears_exact p \<and> reflex_exact p"
proof (induction rule: driver_reach.induct)
  case (reach_init p)
  then show ?case by (rule polygon_init_exact)
next
  case (reach_step p triangles ear_vertex ear p')
  from reach_step.hyps(3,4) have e: "ear_vertex \<in> set (ear_list p)"
    using get_next_ear_Inr by fastforce
  from driver_reach_inv[OF reach_step.hyps(1)] have inv: "poly_inv p" by simp
  from reach_step.IH have ex: "ears_exact p" and re: "reflex_exact p" by simp_all
  from remove_ear_exact(1)[OF inv ex e reach_step.hyps(5)]
    remove_ear_exact(3)[OF inv ex e reach_step.hyps(5) re]
  show ?case by simp
qed

lemma driver_ears_exact:
  assumes "driver_reach vs p ts" and "v \<in> set (vertex_list p)"
  shows "v \<in> set (ear_list p) \<longleftrightarrow> v \<in> set (convex_list p) \<and> fresh_ear p v"
  using driver_reach_exact[OF assms(1)] assms(2) by (simp add: ears_exact_def)

subsection \<open>Concrete states\<close>






subsection \<open>The ear set after a removal\<close>




subsection \<open>The cached answers of \<open>is_convex\<close> and \<open>is_reflex\<close>\<close>




end
